theory Spec2Isabelle
  imports Main "HOL-Library.Word"
begin

section \<open>Run-time type information, as the reflect package reports it\<close>

text \<open>
  \<^verbatim>\<open>FreeList[E].init\<close> inspects the element type \<open>E\<close> through the standard library:
  \<^verbatim>\<open>reflect.TypeOf((*E)(nil)).Elem()\<close>, \<^verbatim>\<open>Kind\<close>, \<^verbatim>\<open>FieldByName\<close>, \<^verbatim>\<open>reflect.PointerTo\<close> and
  the \<^verbatim>\<open>Type\<close> and \<^verbatim>\<open>Offset\<close> of a \<^verbatim>\<open>reflect.StructField\<close>. The types of a Go program are
  modelled by their identity (\<open>rtype\<close>) together with the program's type declarations
  (\<open>decls\<close>), which give every defined type its underlying type and every struct
  field its name, type, byte offset and whether it is embedded.
\<close>

datatype Kind =
    Invalid | Bool | IntKind | Int8 | Int16 | Int32 | Int64
  | Uint | Uint8 | Uint16 | Uint32 | Uint64 | Uintptr
  | Float32 | Float64 | Complex64 | Complex128
  | Array | Chan | Func | Interface | Map | Pointer | Slice | String | Struct
  | UnsafePointer

type_synonym uintptr = "64 word"

text \<open>
  A type is a defined (named) type, a pointer type, or some other unnamed type of which
  only the kind matters here. An unnamed struct type is represented by a name of its
  own in the declarations: the only identity test of \<^verbatim>\<open>init\<close> compares a field's type
  with pointer-to-\<open>E\<close>, and a struct type that mentions itself has a name.
\<close>

datatype rtype = Defined string | PointerTo rtype | Unnamed Kind

record StructField =
  Name :: string
  Type :: rtype
  Offset :: uintptr
  Anonymous :: bool

datatype decl = StructDecl "StructField list" | OtherDecl Kind

type_synonym decls = "(string \<times> decl) list"

fun Kind_of :: "decls \<Rightarrow> rtype \<Rightarrow> Kind" where
  "Kind_of D (PointerTo t) = Pointer"
| "Kind_of D (Unnamed k) = k"
| "Kind_of D (Defined n) =
     (case map_of D n of
        Some (StructDecl fs) \<Rightarrow> Struct
      | Some (OtherDecl k) \<Rightarrow> k
      | None \<Rightarrow> Invalid)"

fun Fields :: "decls \<Rightarrow> rtype \<Rightarrow> StructField list" where
  "Fields D (Defined n) =
     (case map_of D n of Some (StructDecl fs) \<Rightarrow> fs | _ \<Rightarrow> [])"
| "Fields D t = []"

subsection \<open>Field lookup with promotion through embedded structs\<close>

text \<open>
  \<^verbatim>\<open>reflect.Type.FieldByName\<close> first looks for a field declared in the struct itself; when
  there is none and the struct embeds other structs it searches them breadth first
  (\<^verbatim>\<open>FieldByNameFunc\<close>), one depth level at a time, as the language does for a selector:
  a unique match at the shallowest depth is returned, several matches at one depth
  cancel each other. The \<^verbatim>\<open>reflect\<close> documentation adds: if the returned field is promoted
  from an embedded struct, then \<^verbatim>\<open>Offset\<close> in the returned \<^verbatim>\<open>StructField\<close> is the offset in the
  embedded struct.

  \<open>scan\<close> is the state of one level of that search: the types visited so far, the
  queue for the next level with its multiplicities, and the match found at this level.
\<close>

record scan =
  visited :: "rtype list"
  nxt :: "rtype list"
  nextCount :: "rtype \<Rightarrow> nat"
  found :: "StructField option"

text \<open>The struct type an embedded field of type \<open>T\<close> or \<open>*T\<close> brings in, if any.\<close>

definition embeddedStruct :: "decls \<Rightarrow> StructField \<Rightarrow> rtype option" where
  "embeddedStruct D f =
     (if Anonymous f then
        (let ntyp = (case Type f of PointerTo t \<Rightarrow> t | t \<Rightarrow> t)
         in if Kind_of D ntyp = Struct then Some ntyp else None)
      else None)"

text \<open>The fields of one struct at the current level; \<open>None\<close> is the early return
  \<^verbatim>\<open>StructField{}, false\<close> taken when the name occurs more than once at this level.\<close>

fun scanFields :: "decls \<Rightarrow> string \<Rightarrow> nat \<Rightarrow> StructField list \<Rightarrow> scan \<Rightarrow> scan option" where
  "scanFields D name cnt [] sc = Some sc"
| "scanFields D name cnt (f # fs) sc =
     (if Name f = name then
        (if 1 < cnt \<or> found sc \<noteq> None then None
         else scanFields D name cnt fs (sc\<lparr>found := Some f\<rparr>))
      else
        (case embeddedStruct D f of
           None \<Rightarrow> scanFields D name cnt fs sc
         | Some styp \<Rightarrow>
             if found sc \<noteq> None then scanFields D name cnt fs sc
             else if 0 < nextCount sc styp then
               scanFields D name cnt fs (sc\<lparr>nextCount := (nextCount sc)(styp := 2)\<rparr>)
             else
               scanFields D name cnt fs
                 (sc\<lparr>nextCount := (nextCount sc)(styp := (if 1 < cnt then 2 else 1)),
                    nxt := nxt sc @ [styp]\<rparr>)))"

text \<open>All structs queued for the current level, skipping those seen at a higher level.\<close>

fun scanLevel :: "decls \<Rightarrow> string \<Rightarrow> (rtype \<Rightarrow> nat) \<Rightarrow> rtype list \<Rightarrow> scan \<Rightarrow> scan option" where
  "scanLevel D name count [] sc = Some sc"
| "scanLevel D name count (t # ts) sc =
     (if t \<in> set (visited sc) then scanLevel D name count ts sc
      else
        (case scanFields D name (count t) (Fields D t) (sc\<lparr>visited := t # visited sc\<rparr>) of
           None \<Rightarrow> None
         | Some sc' \<Rightarrow> scanLevel D name count ts sc'))"

text \<open>The struct types the declarations introduce: the search never leaves them.\<close>

definition unvisited :: "decls \<Rightarrow> rtype list \<Rightarrow> nat" where
  "unvisited D vs = card (Defined ` fst ` set D - set vs)"

text \<open>
  Each level of the search that queues a struct for the next level has visited a
  declared struct type for the first time, so the number of declared types not yet
  visited bounds the number of levels.
\<close>

lemma scanFields_visited:
  "scanFields D name cnt fs sc = Some sc' \<Longrightarrow> visited sc' = visited sc"
  by (induction fs arbitrary: sc) (auto split: if_splits option.splits)

lemma scanLevel_visited_mono:
  "scanLevel D name count ts sc = Some sc' \<Longrightarrow> set (visited sc) \<subseteq> set (visited sc')"
proof (induction ts arbitrary: sc)
  case Nil
  then show ?case by simp
next
  case (Cons t ts)
  show ?case
  proof (cases "t \<in> set (visited sc)")
    case True
    with Cons show ?thesis by simp
  next
    case False
    with Cons.prems obtain sc1 where
      s1: "scanFields D name (count t) (Fields D t) (sc\<lparr>visited := t # visited sc\<rparr>) = Some sc1"
      and s2: "scanLevel D name count ts sc1 = Some sc'"
      by (auto split: option.splits)
    from scanFields_visited [OF s1] have "visited sc1 = t # visited sc" by simp
    with Cons.IH [OF s2] show ?thesis by auto
  qed
qed

lemma Fields_nonempty_declared:
  "Fields D t \<noteq> [] \<Longrightarrow> t \<in> Defined ` fst ` set D"
  by (cases t) (auto split: option.splits decl.splits dest!: map_of_SomeD intro!: image_eqI [where x = "(a, b)" for a b])

lemma scanLevel_progress:
  "scanLevel D name count ts sc = Some sc' \<Longrightarrow> nxt sc' \<noteq> nxt sc \<Longrightarrow>
     \<exists>t \<in> Defined ` fst ` set D. t \<notin> set (visited sc) \<and> t \<in> set (visited sc')"
proof (induction ts arbitrary: sc)
  case Nil
  then show ?case by simp
next
  case (Cons t ts)
  show ?case
  proof (cases "t \<in> set (visited sc)")
    case True
    with Cons show ?thesis by simp
  next
    case False
    with Cons.prems obtain sc1 where
      s1: "scanFields D name (count t) (Fields D t) (sc\<lparr>visited := t # visited sc\<rparr>) = Some sc1"
      and s2: "scanLevel D name count ts sc1 = Some sc'"
      by (auto split: option.splits)
    have v1: "visited sc1 = t # visited sc"
      using scanFields_visited [OF s1] by simp
    have sub: "set (visited sc1) \<subseteq> set (visited sc')"
      by (rule scanLevel_visited_mono [OF s2])
    show ?thesis
    proof (cases "Fields D t = []")
      case True
      with s1 have "nxt sc1 = nxt sc" by auto
      with Cons.prems have "nxt sc' \<noteq> nxt sc1" by simp
      from Cons.IH [OF s2 this] obtain u where
        "u \<in> Defined ` fst ` set D" "u \<notin> set (visited sc1)" "u \<in> set (visited sc')"
        by blast
      with v1 show ?thesis by auto
    next
      case nonempty: False
      then have "t \<in> Defined ` fst ` set D" by (rule Fields_nonempty_declared)
      moreover have "t \<in> set (visited sc')" using sub v1 by auto
      ultimately show ?thesis using False by blast
    qed
  qed
qed

lemma unvisited_less:
  assumes "set vs \<subseteq> set vs'" and "t \<in> Defined ` fst ` set D" and "t \<notin> set vs" and "t \<in> set vs'"
  shows "unvisited D vs' < unvisited D vs"
  unfolding unvisited_def
proof (rule psubset_card_mono)
  show "finite (Defined ` fst ` set D - set vs)" by simp
  show "Defined ` fst ` set D - set vs' \<subset> Defined ` fst ` set D - set vs"
    using assms by blast
qed

text \<open>
  The loop \<^verbatim>\<open>for len(next) > 0\<close> of \<^verbatim>\<open>FieldByNameFunc\<close>: one call is one depth level,
  \<open>current\<close> and \<open>count\<close> being the queue and the multiplicities the level before built.
\<close>

function FieldByNameFunc_loop ::
  "decls \<Rightarrow> string \<Rightarrow> rtype list \<Rightarrow> (rtype \<Rightarrow> nat) \<Rightarrow> rtype list \<Rightarrow> StructField option" where
  "FieldByNameFunc_loop D name current count vis =
     (case scanLevel D name count current
             \<lparr>visited = vis, nxt = [], nextCount = (\<lambda>t. 0), found = None\<rparr> of
        None \<Rightarrow> None
      | Some sc \<Rightarrow>
          (case found sc of
             Some f \<Rightarrow> Some f
           | None \<Rightarrow>
               if nxt sc = [] then None
               else FieldByNameFunc_loop D name (nxt sc) (nextCount sc) (visited sc)))"
  by pat_completeness auto
termination
proof (relation "measure (\<lambda>(D, name, current, count, vis). unvisited D vis)")
  show "wf (measure (\<lambda>(D, name, current, count, vis). unvisited D vis))" by simp
next
  fix D :: decls and name current count vis sc
  assume lev: "scanLevel D name count current
                 \<lparr>visited = vis, nxt = [], nextCount = (\<lambda>t. 0), found = None\<rparr> = Some sc"
    and "found sc = None" and ne: "nxt sc \<noteq> []"
  let ?sc0 = "\<lparr>visited = vis, nxt = [], nextCount = (\<lambda>t. 0), found = None\<rparr>"
  from ne have "nxt sc \<noteq> nxt ?sc0" by simp
  from scanLevel_progress [OF lev this] obtain t where
    t: "t \<in> Defined ` fst ` set D" "t \<notin> set vis" "t \<in> set (visited sc)" by auto
  from scanLevel_visited_mono [OF lev] have "set vis \<subseteq> set (visited sc)" by simp
  from unvisited_less [OF this t] 
  show "((D, name, nxt sc, nextCount sc, visited sc), D, name, current, count, vis)
          \<in> measure (\<lambda>(D, name, current, count, vis). unvisited D vis)"
    by simp
qed

definition FieldByNameFunc :: "decls \<Rightarrow> rtype \<Rightarrow> string \<Rightarrow> StructField option" where
  "FieldByNameFunc D t name = FieldByNameFunc_loop D name [t] (\<lambda>t. 0) []"

text \<open>
  \<^verbatim>\<open>FieldByName\<close>: the quick check for a field declared in the struct itself, then the
  breadth-first search when the struct has embedded fields.
\<close>

definition FieldByName :: "decls \<Rightarrow> rtype \<Rightarrow> string \<Rightarrow> StructField option" where
  "FieldByName D t name =
     (case (if name \<noteq> [] then find (\<lambda>f. Name f = name) (Fields D t) else None) of
        Some f \<Rightarrow> Some f
      | None \<Rightarrow>
          if name \<noteq> [] \<and> list_ex Anonymous (Fields D t) then FieldByNameFunc D t name
          else None)"

section \<open>The free list\<close>

text \<open>
  Memory is a map from addresses to pointer-sized words; \<open>0\<close> is \<^verbatim>\<open>nil\<close>. The expression
  \<^verbatim>\<open>*(**E)(unsafe.Pointer(uintptr(unsafe.Pointer(x)) + l.next))\<close> is the word at address
  \<open>x + next l\<close>, the addition being that of \<^verbatim>\<open>uintptr\<close>. Words at different addresses are
  independent of each other: the fields the pool and the examples touch are
  pointer-sized and aligned, and no access straddles two of them. The world outside
  the pool holds that memory, what \<^verbatim>\<open>log.Print\<close> wrote, and whatever state the hooks keep
  for themselves (\<open>ext\<close>).

  The embedding is sequential: one call runs to its end before the next begins. A
  call ends by returning, by a panic, or by blocking on the mutex for ever; a call of
  \<^verbatim>\<open>Put\<close> can also end with the death of the process.
\<close>

datatype failure = TypeAssertionPanic | NilDereferencePanic | HookPanic string | Blocked

record 'h world =
  heap :: "uintptr \<Rightarrow> uintptr"
  stderr :: "string list"
  ext :: 'h

text \<open>
  The struct \<^verbatim>\<open>FreeList[E]\<close>. \<open>mu\<close> is true while the mutex is held, \<open>initOnce\<close> is the
  done flag of the \<^verbatim>\<open>sync.Once\<close>. A hook that is \<^verbatim>\<open>nil\<close> is \<open>None\<close>; a hook that is set acts
  on the world and returns or panics. It does not act on the pool: the fields of the
  pool are unexported, and a hook that calls \<^verbatim>\<open>Get\<close> or \<^verbatim>\<open>Put\<close> of the pool it belongs to is
  not considered.
\<close>

record 'h FreeList =
  mu :: bool
  free :: uintptr
  initOnce :: bool
  "next" :: uintptr
  New :: "('h world \<Rightarrow> (failure + uintptr) \<times> 'h world) option"
  Reset :: "(uintptr \<Rightarrow> 'h world \<Rightarrow> (failure + unit) \<times> 'h world) option"

definition Lock :: "'h FreeList \<Rightarrow> failure + 'h FreeList" where
  "Lock l = (if mu l then Inl Blocked else Inr (l\<lparr>mu := True\<rparr>))"

definition Unlock :: "'h FreeList \<Rightarrow> 'h FreeList" where
  "Unlock l = l\<lparr>mu := False\<rparr>"

text \<open>
  \<^verbatim>\<open>l.initOnce.Do(f)\<close>: \<^verbatim>\<open>f\<close> runs only if no call of \<^verbatim>\<open>Do\<close> has run it before, and the
  \<^verbatim>\<open>Once\<close> is done when \<^verbatim>\<open>f\<close> ends, also when it ends by a panic (\<^verbatim>\<open>sync\<close>: if f panics, Do
  considers it to have returned; future calls of Do return without calling f). The
  closure works on the local \<^verbatim>\<open>didPanic\<close> of its caller and on the list.
\<close>

definition Do ::
  "(bool \<times> 'h FreeList \<Rightarrow> (failure + unit) \<times> bool \<times> 'h FreeList) \<Rightarrow>
   bool \<times> 'h FreeList \<Rightarrow> (failure + unit) \<times> bool \<times> 'h FreeList" where
  "Do f s =
     (if initOnce (snd s) then (Inr (), s)
      else (case f s of (r, didPanic, l) \<Rightarrow> (r, didPanic, l\<lparr>initOnce := True\<rparr>)))"

text \<open>The closure given to \<^verbatim>\<open>Do\<close> in \<^verbatim>\<open>init\<close>. The failing type assertion
  \<^verbatim>\<open>any(nil).(toPutInFreeListItemMustBeAStructThatHasFieldPointerToNext)\<close> is a panic.\<close>

definition init_func ::
  "decls \<Rightarrow> rtype \<Rightarrow> bool \<times> 'h FreeList \<Rightarrow> (failure + unit) \<times> bool \<times> 'h FreeList" where
  "init_func D E s =
     (let l = snd s;
          didPanic = True;
          typeOfE = E
      in if Struct = Kind_of D typeOfE then
           (case FieldByName D typeOfE ''next'' of
              Some nextField \<Rightarrow>
                if PointerTo typeOfE = Type nextField
                then (Inr (), False, l\<lparr>next := Offset nextField\<rparr>)
                else (Inl TypeAssertionPanic, didPanic, l)
            | None \<Rightarrow> (Inl TypeAssertionPanic, didPanic, l))
         else (Inl TypeAssertionPanic, didPanic, l))"

definition init ::
  "decls \<Rightarrow> rtype \<Rightarrow> 'h FreeList \<Rightarrow> 'h world \<Rightarrow> (failure + unit) \<times> 'h FreeList \<times> 'h world" where
  "init D E l w =
     (let didPanic = False
      in case Do (init_func D E) (didPanic, l) of
           (Inl e, didPanic, l') \<Rightarrow> (Inl e, l', w)
         | (Inr u, didPanic, l') \<Rightarrow>
             if didPanic then
               (Inl TypeAssertionPanic, l',
                w\<lparr>stderr := stderr w @
                  [''an item stored in free list must be a struct that has field pointer to ''
                     @ [CHR 0x22] @ ''next'' @ [CHR 0x22]]\<rparr>)
             else (Inr (), l', w))"

text \<open>
  \<^verbatim>\<open>Get\<close>. The hooks run after \<^verbatim>\<open>Unlock\<close>. A panic of a hook leaves \<^verbatim>\<open>Get\<close> at once, with
  the list as it is at that moment.
\<close>

definition Get ::
  "decls \<Rightarrow> rtype \<Rightarrow> 'h FreeList \<Rightarrow> 'h world \<Rightarrow> (failure + uintptr) \<times> 'h FreeList \<times> 'h world" where
  "Get D E l w =
     (case init D E l w of
        (Inl e, l0, w0) \<Rightarrow> (Inl e, l0, w0)
      | (Inr u, l0, w0) \<Rightarrow>
          (case Lock l0 of
             Inl e \<Rightarrow> (Inl e, l0, w0)
           | Inr l1 \<Rightarrow>
               (let x = free l1
                in if x \<noteq> 0 then
                     (let l2 = Unlock (l1\<lparr>free := heap w0 (x + next l1)\<rparr>)
                      in case Reset l2 of
                           None \<Rightarrow> (Inr x, l2, w0)
                         | Some reset \<Rightarrow>
                             (case reset x w0 of
                                (Inl e, w1) \<Rightarrow> (Inl e, l2, w1)
                              | (Inr u, w1) \<Rightarrow> (Inr x, l2, w1)))
                   else
                     (let l2 = Unlock l1
                      in case New l2 of
                           None \<Rightarrow> (Inr x, l2, w0)
                         | Some new \<Rightarrow>
                             (case new w0 of
                                (Inl e, w1) \<Rightarrow> (Inl e, l2, w1)
                              | (Inr y, w1) \<Rightarrow> (Inr y, l2, w1))))))"

text \<open>
  \<^verbatim>\<open>Put\<close>. Storing through \<^verbatim>\<open>nil\<close> plus a field offset is a memory fault at the address
  \<open>next l\<close>. The Go runtime turns a fault at an address below 4096 into the panic of a
  nil dereference, which a caller can recover from; a fault at any other address is
  fatal (\<^verbatim>\<open>unexpected fault address\<close>): the process ends and no \<^verbatim>\<open>recover\<close> runs. Either way
  the fault happens between \<^verbatim>\<open>Lock\<close> and \<^verbatim>\<open>Unlock\<close>, and nothing unlocks the mutex. So a call
  of \<^verbatim>\<open>Put\<close> that does not return ends with a failure or with the death of the process.
\<close>

datatype put_failure = Fails failure | FatalFault

definition Put ::
  "decls \<Rightarrow> rtype \<Rightarrow> 'h FreeList \<Rightarrow> uintptr \<Rightarrow> 'h world \<Rightarrow>
   (put_failure + unit) \<times> 'h FreeList \<times> 'h world" where
  "Put D E l x w =
     (case init D E l w of
        (Inl e, l0, w0) \<Rightarrow> (Inl (Fails e), l0, w0)
      | (Inr u, l0, w0) \<Rightarrow>
          (case Lock l0 of
             Inl e \<Rightarrow> (Inl (Fails e), l0, w0)
           | Inr l1 \<Rightarrow>
               if x = 0 then
                 (if next l1 < 0x1000 then (Inl (Fails NilDereferencePanic), l1, w0)
                  else (Inl FatalFault, l1, w0))
               else
                 (let w1 = w0\<lparr>heap := (heap w0)(x + next l1 := free l1)\<rparr>;
                      l2 = l1\<lparr>free := x\<rparr>
                  in (Inr (), Unlock l2, w1))))"

text \<open>A pool as its owner constructs it: the zero value of the struct with the two
  hooks filled in.\<close>

definition fresh ::
  "('h world \<Rightarrow> (failure + uintptr) \<times> 'h world) option \<Rightarrow>
   (uintptr \<Rightarrow> 'h world \<Rightarrow> (failure + unit) \<times> 'h world) option \<Rightarrow> 'h FreeList" where
  "fresh new reset =
     \<lparr>mu = False, free = 0, initOnce = False, next = 0, New = new, Reset = reset\<rparr>"

subsection \<open>Sequences of calls\<close>

text \<open>A caller that recovers from a panic can go on using the pool, so a sequence of
  calls does not stop at a failure: every call contributes its outcome. It stops when
  the process is killed: the calls after that never run.\<close>

datatype op = OpGet | OpPut uintptr

datatype outcome = Got uintptr | PutDone | Failed failure | Killed

definition step ::
  "decls \<Rightarrow> rtype \<Rightarrow> op \<Rightarrow> 'h FreeList \<Rightarrow> 'h world \<Rightarrow> outcome \<times> 'h FreeList \<times> 'h world" where
  "step D E c l w =
     (case c of
        OpGet \<Rightarrow>
          (case Get D E l w of
             (Inl e, l', w') \<Rightarrow> (Failed e, l', w')
           | (Inr x, l', w') \<Rightarrow> (Got x, l', w'))
      | OpPut x \<Rightarrow>
          (case Put D E l x w of
             (Inl (Fails e), l', w') \<Rightarrow> (Failed e, l', w')
           | (Inl FatalFault, l', w') \<Rightarrow> (Killed, l', w')
           | (Inr u, l', w') \<Rightarrow> (PutDone, l', w')))"

fun run ::
  "decls \<Rightarrow> rtype \<Rightarrow> op list \<Rightarrow> 'h FreeList \<Rightarrow> 'h world \<Rightarrow> outcome list \<times> 'h FreeList \<times> 'h world" where
  "run D E [] l w = ([], l, w)"
| "run D E (c # cs) l w =
     (case step D E c l w of
        (r, l', w') \<Rightarrow>
          if r = Killed then ([r], l', w')
          else (case run D E cs l' w' of (rs, l'', w'') \<Rightarrow> (r # rs, l'', w'')))"

section \<open>The baseline implementation of the tests\<close>

text \<open>
  \<^verbatim>\<open>nativeFreeList\<close> is the free list written by hand for one element type: it reads and
  writes the linkage through the selector \<^verbatim>\<open>x.next\<close>, which the compiler turns into the
  address of \<open>x\<close> plus the offset of the field \<^verbatim>\<open>next\<close> in the element type. That offset
  is the parameter \<open>nextOffset\<close>. It has no \<^verbatim>\<open>init\<close>. A store through the selector of a
  \<^verbatim>\<open>nil\<close> pointer is checked by the compiled code at every offset: it is always the panic
  of a nil dereference, never a fatal fault.
\<close>

record 'h nativeFreeList =
  mu_native :: bool
  free_native :: uintptr
  New_native :: "('h world \<Rightarrow> (failure + uintptr) \<times> 'h world) option"
  Reset_native :: "(uintptr \<Rightarrow> 'h world \<Rightarrow> (failure + unit) \<times> 'h world) option"

definition Lock_native :: "'h nativeFreeList \<Rightarrow> failure + 'h nativeFreeList" where
  "Lock_native l = (if mu_native l then Inl Blocked else Inr (l\<lparr>mu_native := True\<rparr>))"

definition Unlock_native :: "'h nativeFreeList \<Rightarrow> 'h nativeFreeList" where
  "Unlock_native l = l\<lparr>mu_native := False\<rparr>"

definition Get_native ::
  "uintptr \<Rightarrow> 'h nativeFreeList \<Rightarrow> 'h world \<Rightarrow> (failure + uintptr) \<times> 'h nativeFreeList \<times> 'h world" where
  "Get_native nextOffset l w =
     (case Lock_native l of
        Inl e \<Rightarrow> (Inl e, l, w)
      | Inr l1 \<Rightarrow>
          (let x = free_native l1
           in if x \<noteq> 0 then
                (let l2 = Unlock_native (l1\<lparr>free_native := heap w (x + nextOffset)\<rparr>)
                 in case Reset_native l2 of
                      None \<Rightarrow> (Inr x, l2, w)
                    | Some reset \<Rightarrow>
                        (case reset x w of
                           (Inl e, w1) \<Rightarrow> (Inl e, l2, w1)
                         | (Inr u, w1) \<Rightarrow> (Inr x, l2, w1)))
              else
                (let l2 = Unlock_native l1
                 in case New_native l2 of
                      None \<Rightarrow> (Inr x, l2, w)
                    | Some new \<Rightarrow>
                        (case new w of
                           (Inl e, w1) \<Rightarrow> (Inl e, l2, w1)
                         | (Inr y, w1) \<Rightarrow> (Inr y, l2, w1)))))"

definition Put_native ::
  "uintptr \<Rightarrow> 'h nativeFreeList \<Rightarrow> uintptr \<Rightarrow> 'h world \<Rightarrow> (failure + unit) \<times> 'h nativeFreeList \<times> 'h world" where
  "Put_native nextOffset l x w =
     (case Lock_native l of
        Inl e \<Rightarrow> (Inl e, l, w)
      | Inr l1 \<Rightarrow>
          if x = 0 then (Inl NilDereferencePanic, l1, w)
          else
            (let w1 = w\<lparr>heap := (heap w)(x + nextOffset := free_native l1)\<rparr>;
                 l2 = l1\<lparr>free_native := x\<rparr>
             in (Inr (), Unlock_native l2, w1)))"

definition step_native ::
  "uintptr \<Rightarrow> op \<Rightarrow> 'h nativeFreeList \<Rightarrow> 'h world \<Rightarrow> outcome \<times> 'h nativeFreeList \<times> 'h world" where
  "step_native nextOffset c l w =
     (case c of
        OpGet \<Rightarrow>
          (case Get_native nextOffset l w of
             (Inl e, l', w') \<Rightarrow> (Failed e, l', w')
           | (Inr x, l', w') \<Rightarrow> (Got x, l', w'))
      | OpPut x \<Rightarrow>
          (case Put_native nextOffset l x w of
             (Inl e, l', w') \<Rightarrow> (Failed e, l', w')
           | (Inr u, l', w') \<Rightarrow> (PutDone, l', w')))"

fun run_native ::
  "uintptr \<Rightarrow> op list \<Rightarrow> 'h nativeFreeList \<Rightarrow> 'h world \<Rightarrow> outcome list \<times> 'h nativeFreeList \<times> 'h world" where
  "run_native nextOffset [] l w = ([], l, w)"
| "run_native nextOffset (c # cs) l w =
     (case step_native nextOffset c l w of
        (r, l', w') \<Rightarrow>
          (case run_native nextOffset cs l' w' of (rs, l'', w'') \<Rightarrow> (r # rs, l'', w'')))"

section \<open>Notions used to state the properties\<close>

text \<open>
  What linkage resolution yields for an element type: the offset that \<open>init_func\<close>
  stores, or nothing when it panics. It is read off \<open>init_func\<close> itself, run on a
  pool of no importance.
\<close>

definition resolved_offset :: "decls \<Rightarrow> rtype \<Rightarrow> uintptr option" where
  "resolved_offset D E =
     (case init_func D E (False, fresh None None :: unit FreeList) of
        (Inr u, didPanic, l) \<Rightarrow> Some (next l)
      | (Inl e, didPanic, l) \<Rightarrow> None)"

text \<open>
  A pool is ready for offset \<open>off\<close> when its mutex is free and its linkage offset is
  \<open>off\<close>: already cached, or about to be resolved to \<open>off\<close> by the first call.
\<close>

definition ready :: "decls \<Rightarrow> rtype \<Rightarrow> 'h FreeList \<Rightarrow> uintptr \<Rightarrow> bool" where
  "ready D E l off \<longleftrightarrow>
     \<not> mu l \<and> (if initOnce l then next l = off else resolved_offset D E = Some off)"

text \<open>
  \<open>chain off h p xs\<close>: following the words at offset \<open>off\<close> from \<open>p\<close> in memory \<open>h\<close> visits
  exactly the elements \<open>xs\<close>, in this order, and then reaches \<^verbatim>\<open>nil\<close>.
\<close>

primrec chain :: "uintptr \<Rightarrow> (uintptr \<Rightarrow> uintptr) \<Rightarrow> uintptr \<Rightarrow> uintptr list \<Rightarrow> bool" where
  "chain off h p [] = (p = 0)"
| "chain off h p (x # xs) = (p = x \<and> x \<noteq> 0 \<and> chain off h (h (x + off)) xs)"

text \<open>The element type of the tests, \<^verbatim>\<open>type T struct { A int; next *T }\<close>, and the three
  types of \<^verbatim>\<open>TestPanics\<close>, laid out for a 64-bit target.\<close>

definition test_types :: decls where
  "test_types =
     [(''T'', StructDecl
         [\<lparr>Name = ''A'', Type = Unnamed IntKind, Offset = 0, Anonymous = False\<rparr>,
          \<lparr>Name = ''next'', Type = PointerTo (Defined ''T''), Offset = 8, Anonymous = False\<rparr>]),
      (''NotStruct'', OtherDecl IntKind),
      (''StructNoNextField'', StructDecl
         [\<lparr>Name = ''A'', Type = Unnamed IntKind, Offset = 0, Anonymous = False\<rparr>]),
      (''StructNextFieldNotPointerToStruct'', StructDecl
         [\<lparr>Name = ''A'', Type = Unnamed IntKind, Offset = 0, Anonymous = False\<rparr>,
          \<lparr>Name = ''next'', Type = Unnamed String, Offset = 8, Anonymous = False\<rparr>])]"

text \<open>A world whose memory is all zero, with no hook state.\<close>

definition zero_world :: "unit world" where
  "zero_world = \<lparr>heap = (\<lambda>a. 0), stderr = [], ext = ()\<rparr>"

text \<open>
  The offset of the field \<^verbatim>\<open>next\<close> that the element type declares itself, when that field
  has type pointer-to-\<open>E\<close>: what the selector \<^verbatim>\<open>x.next\<close> of the documentation's
  \<^verbatim>\<open>type T struct { ...; next *T; ... }\<close> compiles to.
\<close>

definition declared_next :: "decls \<Rightarrow> rtype \<Rightarrow> uintptr option" where
  "declared_next D E =
     (case find (\<lambda>f. Name f = ''next'') (Fields D E) of
        Some f \<Rightarrow> if Type f = PointerTo E then Some (Offset f) else None
      | None \<Rightarrow> None)"

text \<open>
  A pool over a type that declares its linkage field at \<open>off\<close>, whose cached offset, once
  the first call has run, is that offset.
\<close>

definition wellformed :: "decls \<Rightarrow> rtype \<Rightarrow> 'h FreeList \<Rightarrow> uintptr \<Rightarrow> bool" where
  "wellformed D E l off \<longleftrightarrow>
     declared_next D E = Some off \<and> (initOnce l \<longrightarrow> next l = off)"

text \<open>
  To observe which hooks a call invokes, a hook is wrapped so that it appends its
  invocation to a log kept beside the hook state; apart from the log the wrapped hook
  does what the hook does.
\<close>

datatype hookcall = NewCalled | ResetCalled uintptr

definition untraced :: "('h \<times> hookcall list) world \<Rightarrow> 'h world" where
  "untraced w = \<lparr>heap = heap w, stderr = stderr w, ext = fst (ext w)\<rparr>"

definition calls :: "('h \<times> hookcall list) world \<Rightarrow> hookcall list" where
  "calls w = snd (ext w)"

definition retraced :: "'h world \<Rightarrow> hookcall list \<Rightarrow> ('h \<times> hookcall list) world" where
  "retraced w cs = \<lparr>heap = heap w, stderr = stderr w, ext = (ext w, cs)\<rparr>"

definition traced_new ::
  "('h world \<Rightarrow> (failure + uintptr) \<times> 'h world) \<Rightarrow>
   ('h \<times> hookcall list) world \<Rightarrow> (failure + uintptr) \<times> ('h \<times> hookcall list) world" where
  "traced_new new w =
     (case new (untraced w) of (r, w') \<Rightarrow> (r, retraced w' (calls w @ [NewCalled])))"

definition traced_reset ::
  "(uintptr \<Rightarrow> 'h world \<Rightarrow> (failure + unit) \<times> 'h world) \<Rightarrow>
   uintptr \<Rightarrow> ('h \<times> hookcall list) world \<Rightarrow> (failure + unit) \<times> ('h \<times> hookcall list) world" where
  "traced_reset reset x w =
     (case reset x (untraced w) of (r, w') \<Rightarrow> (r, retraced w' (calls w @ [ResetCalled x])))"

text \<open>The generic and the baseline pool hold the same list: same mutex state, same
  head, same hooks.\<close>

definition same_pool :: "'h FreeList \<Rightarrow> 'h nativeFreeList \<Rightarrow> bool" where
  "same_pool l n \<longleftrightarrow>
     mu l = mu_native n \<and> free l = free_native n \<and> New l = New_native n \<and> Reset l = Reset_native n"

text \<open>
  The list of idle elements, most recently put first, as the calls of a sequence
  change it: \<^verbatim>\<open>Put\<close> adds its argument in front, \<^verbatim>\<open>Get\<close> takes the first element away.
\<close>

fun idle_after :: "uintptr list \<Rightarrow> op list \<Rightarrow> uintptr list" where
  "idle_after ys [] = ys"
| "idle_after ys (OpPut x # cs) = idle_after (x # ys) cs"
| "idle_after ys (OpGet # cs) = idle_after (tl ys) cs"

text \<open>Correct use: every \<^verbatim>\<open>Put\<close> receives an element that is not \<^verbatim>\<open>nil\<close> and not idle at
  the moment.\<close>

fun used_correctly :: "uintptr list \<Rightarrow> op list \<Rightarrow> bool" where
  "used_correctly ys [] = True"
| "used_correctly ys (OpPut x # cs) = (x \<noteq> 0 \<and> x \<notin> set ys \<and> used_correctly (x # ys) cs)"
| "used_correctly ys (OpGet # cs) = used_correctly (tl ys) cs"

text \<open>The elements a sequence of calls puts.\<close>

fun puts :: "op list \<Rightarrow> uintptr list" where
  "puts [] = []"
| "puts (OpPut x # cs) = x # puts cs"
| "puts (OpGet # cs) = puts cs"

text \<open>What a stack answers to the calls of a sequence when no \<^verbatim>\<open>New\<close> is configured.\<close>

fun expected :: "uintptr list \<Rightarrow> op list \<Rightarrow> outcome list" where
  "expected ys [] = []"
| "expected ys (OpPut x # cs) = PutDone # expected (x # ys) cs"
| "expected ys (OpGet # cs) = (case ys of [] \<Rightarrow> Got 0 | y # zs \<Rightarrow> Got y) # expected (tl ys) cs"

text \<open>
  What the pool asks of a \<^verbatim>\<open>Reset\<close> hook: resetting an element of \<open>U\<close> does not write the
  linkage word of another element of \<open>U\<close> (an idle element is the pool's, not the
  caller's), and, for the results of a sequence to be fixed, the hook returns normally.
\<close>

definition reset_respects :: "'h FreeList \<Rightarrow> uintptr \<Rightarrow> uintptr set \<Rightarrow> bool" where
  "reset_respects l off U \<longleftrightarrow>
     (\<forall>reset x w. Reset l = Some reset \<longrightarrow> x \<in> U \<longrightarrow>
        (\<forall>y\<in>U. y \<noteq> x \<longrightarrow> heap (snd (reset x w)) (y + off) = heap w (y + off)))"

definition reset_returns :: "'h FreeList \<Rightarrow> bool" where
  "reset_returns l \<longleftrightarrow> (\<forall>reset x w. Reset l = Some reset \<longrightarrow> fst (reset x w) = Inr ())"

text \<open>
  Hooks for examples. \<open>zeroing_reset\<close> is \<^verbatim>\<open>*t = T{}\<close> of \<^verbatim>\<open>TestListReset\<close> for the type \<open>T\<close>: it
  clears both fields of the element. \<open>panicking_reset\<close> clears the payload and
  panics. \<open>constant_new\<close> returns the element at a fixed address with payload 1.
\<close>

definition zeroing_reset :: "uintptr \<Rightarrow> unit world \<Rightarrow> (failure + unit) \<times> unit world" where
  "zeroing_reset x w = (Inr (), w\<lparr>heap := (heap w)(x := 0, x + 8 := 0)\<rparr>)"

definition panicking_reset :: "uintptr \<Rightarrow> unit world \<Rightarrow> (failure + unit) \<times> unit world" where
  "panicking_reset x w = (Inl (HookPanic ''reset failed''), w\<lparr>heap := (heap w)(x := 0)\<rparr>)"

definition constant_new :: "unit world \<Rightarrow> (failure + uintptr) \<times> unit world" where
  "constant_new w = (Inr 0x100, w\<lparr>heap := (heap w)(0x100 := 1, 0x108 := 0)\<rparr>)"

text \<open>A baseline pool as its owner constructs it.\<close>

definition fresh_native ::
  "('h world \<Rightarrow> (failure + uintptr) \<times> 'h world) option \<Rightarrow>
   (uintptr \<Rightarrow> 'h world \<Rightarrow> (failure + unit) \<times> 'h world) option \<Rightarrow> 'h nativeFreeList" where
  "fresh_native new reset =
     \<lparr>mu_native = False, free_native = 0, New_native = new, Reset_native = reset\<rparr>"

text \<open>
  An element type that reaches its linkage field through an embedded struct:
  \<^verbatim>\<open>type Link struct { next *E }\<close> and \<^verbatim>\<open>type E struct { A int; Link }\<close>. The selector \<^verbatim>\<open>x.next\<close>
  is legal for an \<open>x\<close> of type \<^verbatim>\<open>*E\<close>; the field lies at offset 8 of \<open>E\<close> and at offset 0
  of \<open>Link\<close>.
\<close>

definition promoted_types :: decls where
  "promoted_types =
     [(''Link'', StructDecl
         [\<lparr>Name = ''next'', Type = PointerTo (Defined ''E''), Offset = 0, Anonymous = False\<rparr>]),
      (''E'', StructDecl
         [\<lparr>Name = ''A'', Type = Unnamed IntKind, Offset = 0, Anonymous = False\<rparr>,
          \<lparr>Name = ''Link'', Type = Defined ''Link'', Offset = 8, Anonymous = True\<rparr>])]"

text \<open>
  An element type whose linkage field lies 4096 bytes into the struct:
  \<^verbatim>\<open>type Big struct { A [512]uint64; next *Big }\<close>.
\<close>

definition big_types :: decls where
  "big_types =
     [(''Big'', StructDecl
         [\<lparr>Name = ''A'', Type = Unnamed Array, Offset = 0, Anonymous = False\<rparr>,
          \<lparr>Name = ''next'', Type = PointerTo (Defined ''Big''), Offset = 0x1000,
             Anonymous = False\<rparr>])]"

text \<open>
  The hook calls of a sequence of calls on a stack: a \<^verbatim>\<open>Get\<close> that finds the list empty
  calls \<^verbatim>\<open>New\<close> (if configured, \<open>n\<close>), a \<^verbatim>\<open>Get\<close> that takes an element calls \<^verbatim>\<open>Reset\<close> on it (if
  configured, \<open>r\<close>), a \<^verbatim>\<open>Put\<close> calls nothing.
\<close>

fun hook_trace :: "bool \<Rightarrow> bool \<Rightarrow> uintptr list \<Rightarrow> op list \<Rightarrow> hookcall list" where
  "hook_trace n r ys [] = []"
| "hook_trace n r ys (OpPut x # cs) = hook_trace n r (x # ys) cs"
| "hook_trace n r ys (OpGet # cs) =
     (case ys of
        [] \<Rightarrow> (if n then [NewCalled] else [])
      | y # zs \<Rightarrow> (if r then [ResetCalled y] else []))
     @ hook_trace n r (tl ys) cs"

section \<open>Basic facts\<close>

subsection \<open>Single calls on a ready pool\<close>

lemma init_func_resolved:
  "init_func D E (dp, l) =
     (case resolved_offset D E of
        Some off \<Rightarrow> (Inr (), False, l\<lparr>next := off\<rparr>)
      | None \<Rightarrow> (Inl TypeAssertionPanic, True, l))"
  by (simp add: init_func_def resolved_offset_def fresh_def Let_def split: option.splits)

lemma init_done: "initOnce l \<Longrightarrow> init D E l w = (Inr (), l, w)"
  by (simp add: init_def Do_def)

lemma init_first_ok:
  "\<not> initOnce l \<Longrightarrow> resolved_offset D E = Some off \<Longrightarrow>
     init D E l w = (Inr (), l\<lparr>next := off, initOnce := True\<rparr>, w)"
  by (simp add: init_def Do_def init_func_resolved)

lemma init_first_panic:
  "\<not> initOnce l \<Longrightarrow> resolved_offset D E = None \<Longrightarrow>
     init D E l w = (Inl TypeAssertionPanic, l\<lparr>initOnce := True\<rparr>, w)"
  by (simp add: init_def Do_def init_func_resolved)

lemma init_ready:
  "ready D E l off \<Longrightarrow> init D E l w = (Inr (), l\<lparr>next := off, initOnce := True\<rparr>, w)"
  by (cases "initOnce l") (simp_all add: ready_def init_done init_first_ok)

lemma Put_ready:
  assumes "ready D E l off" and "x \<noteq> 0"
  shows "Put D E l x w =
           (Inr (), l\<lparr>next := off, initOnce := True, free := x\<rparr>,
            w\<lparr>heap := (heap w)(x + off := free l)\<rparr>)"
  using assms by (simp add: Put_def init_ready Lock_def Unlock_def ready_def Let_def)

lemma Get_ready_reuse:
  assumes "ready D E l off" and "free l \<noteq> 0"
  shows "Get D E l w =
           (let l' = l\<lparr>next := off, initOnce := True, free := heap w (free l + off)\<rparr>
            in case Reset l of
                 None \<Rightarrow> (Inr (free l), l', w)
               | Some reset \<Rightarrow>
                   (case reset (free l) w of
                      (Inl e, w1) \<Rightarrow> (Inl e, l', w1)
                    | (Inr u, w1) \<Rightarrow> (Inr (free l), l', w1)))"
  using assms
  by (auto simp add: Get_def init_ready Lock_def Unlock_def ready_def Let_def
      split: option.splits prod.splits sum.splits)

lemma Get_ready_empty:
  assumes "ready D E l off" and "free l = 0"
  shows "Get D E l w =
           (let l' = l\<lparr>next := off, initOnce := True\<rparr>
            in case New l of
                 None \<Rightarrow> (Inr 0, l', w)
               | Some new \<Rightarrow>
                   (case new w of
                      (Inl e, w1) \<Rightarrow> (Inl e, l', w1)
                    | (Inr y, w1) \<Rightarrow> (Inr y, l', w1)))"
  using assms
  by (auto simp add: Get_def init_ready Lock_def Unlock_def ready_def Let_def
      split: option.splits prod.splits sum.splits)

subsection \<open>Chains\<close>

lemma chain_cong:
  "(\<And>y. y \<in> set xs \<Longrightarrow> h' (y + off) = h (y + off)) \<Longrightarrow> chain off h' p xs = chain off h p xs"
  by (induction xs arbitrary: p) auto

lemma chain_upd:
  "x \<notin> set xs \<Longrightarrow> chain off (h(x + off := v)) p xs = chain off h p xs"
  by (rule chain_cong) auto

lemma chain_unique: "chain off h p xs \<Longrightarrow> chain off h p ys \<Longrightarrow> xs = ys"
proof (induction xs arbitrary: p ys)
  case Nil
  then show ?case by (cases ys) auto
next
  case (Cons x xs)
  then show ?case by (cases ys) auto
qed

subsection \<open>Linkage resolution\<close>

lemma resolved_offset_T: "resolved_offset test_types (Defined ''T'') = Some 8"
  by (simp add: resolved_offset_def init_func_def FieldByName_def test_types_def fresh_def)

lemma Fields_nonempty_Struct: "Fields D E \<noteq> [] \<Longrightarrow> Kind_of D E = Struct"
  by (cases E) (auto split: option.splits decl.splits)

lemma declared_next_resolved:
  assumes "declared_next D E = Some off"
  shows "resolved_offset D E = Some off"
proof -
  from assms obtain f where f: "find (\<lambda>f. Name f = ''next'') (Fields D E) = Some f"
    and t: "Type f = PointerTo E" and o: "Offset f = off"
    by (auto simp: declared_next_def split: option.splits if_splits)
  from f have "Fields D E \<noteq> []" by auto
  then have k: "Kind_of D E = Struct" by (rule Fields_nonempty_Struct)
  from f have fb: "FieldByName D E ''next'' = Some f"
    by (simp add: FieldByName_def)
  show ?thesis
    using k fb t o by (simp add: resolved_offset_def init_func_def fresh_def)
qed

lemma no_embedding_resolved:
  assumes "\<not> list_ex Anonymous (Fields D E)"
  shows "resolved_offset D E = declared_next D E"
proof (cases "Fields D E = []")
  case True
  then show ?thesis
    by (simp add: resolved_offset_def init_func_def fresh_def FieldByName_def declared_next_def Let_def)
next
  case False
  then have k: "Kind_of D E = Struct" by (rule Fields_nonempty_Struct)
  have fb: "FieldByName D E ''next'' = find (\<lambda>f. Name f = ''next'') (Fields D E)"
    using assms by (simp add: FieldByName_def split: option.splits)
  show ?thesis
    using k by (auto simp add: resolved_offset_def init_func_def fresh_def fb declared_next_def
        split: option.splits)
qed

lemma wellformed_ready: "wellformed D E l off \<Longrightarrow> \<not> mu l \<Longrightarrow> ready D E l off"
  by (simp add: wellformed_def ready_def declared_next_resolved)

lemma declared_next_T: "declared_next test_types (Defined ''T'') = Some 8"
  by (simp add: declared_next_def test_types_def)

subsection \<open>Logged hooks\<close>

lemma calls_retraced [simp]: "calls (retraced w cs) = cs"
  by (simp add: calls_def retraced_def)

lemma untraced_retraced [simp]: "untraced (retraced w cs) = w"
  by (simp add: untraced_def retraced_def)

subsection \<open>The pool follows a stack\<close>

lemma step_Killed: "step D E c l w = (Killed, l', w') \<Longrightarrow> c = OpPut 0"
  by (cases c)
    (auto simp add: step_def Put_def Let_def
      split: prod.splits sum.splits put_failure.splits if_splits)

lemma Put_chain:
  assumes "ready D E l off" and "chain off (heap w) (free l) ys" and "x \<noteq> 0" and "x \<notin> set ys"
  shows "\<exists>l' w'. Put D E l x w = (Inr (), l', w') \<and> ready D E l' off
           \<and> chain off (heap w') (free l') (x # ys)
           \<and> New l' = New l \<and> Reset l' = Reset l"
proof -
  let ?l' = "l\<lparr>next := off, initOnce := True, free := x\<rparr>"
  let ?w' = "w\<lparr>heap := (heap w)(x + off := free l)\<rparr>"
  have "Put D E l x w = (Inr (), ?l', ?w')" by (rule Put_ready [OF assms(1,3)])
  moreover have "ready D E ?l' off" using assms(1) by (simp add: ready_def)
  moreover have "chain off (heap ?w') (free ?l') (x # ys)"
    using assms(2,3,4) by (simp add: chain_upd)
  ultimately show ?thesis by simp
qed

lemma Get_chain:
  assumes "ready D E l off" and "chain off (heap w) (free l) (x # ys)" and "distinct (x # ys)"
    and "set (x # ys) \<subseteq> U" and "reset_respects l off U"
  shows "\<exists>r l' w'. Get D E l w = (r, l', w') \<and> ready D E l' off
           \<and> chain off (heap w') (free l') ys
           \<and> New l' = New l \<and> Reset l' = Reset l
           \<and> (r = Inr x \<or> (\<exists>e. r = Inl e \<and> \<not> reset_returns l))"
proof -
  from assms(2) have x: "free l = x" "x \<noteq> 0" and tl: "chain off (heap w) (heap w (x + off)) ys"
    by auto
  from x have nz: "free l \<noteq> 0" by simp
  let ?l' = "l\<lparr>next := off, initOnce := True, free := heap w (x + off)\<rparr>"
  have r: "ready D E ?l' off" using assms(1) by (simp add: ready_def)
  show ?thesis
  proof (cases "Reset l")
    case None
    then have "Get D E l w = (Inr x, ?l', w)"
      using x by (simp add: Get_ready_reuse [OF assms(1) nz])
    with r tl show ?thesis by simp
  next
    case (Some reset)
    obtain res w1 where rs: "reset x w = (res, w1)" by (cases "reset x w")
    have keep: "\<And>y. y \<in> set ys \<Longrightarrow> heap w1 (y + off) = heap w (y + off)"
    proof -
      fix y assume y: "y \<in> set ys"
      with assms(3) have "y \<noteq> x" by auto
      moreover from y assms(4) have "y \<in> U" "x \<in> U" by auto
      ultimately have "heap (snd (reset x w)) (y + off) = heap w (y + off)"
        using assms(5) Some by (simp add: reset_respects_def)
      with rs show "heap w1 (y + off) = heap w (y + off)" by simp
    qed
    have c: "chain off (heap w1) (heap w (x + off)) ys"
      using tl keep by (simp add: chain_cong [of ys "heap w1" off "heap w"])
    show ?thesis
    proof (cases res)
      case (Inl e)
      then have "Get D E l w = (Inl e, ?l', w1)"
        using Some rs x by (simp add: Get_ready_reuse [OF assms(1) nz])
      moreover have "\<not> reset_returns l"
      proof
        assume "reset_returns l"
        with Some have "fst (reset x w) = Inr ()" by (simp add: reset_returns_def)
        with rs Inl show False by simp
      qed
      ultimately show ?thesis using r c by simp
    next
      case (Inr u)
      then have "Get D E l w = (Inr x, ?l', w1)"
        using Some rs x by (simp add: Get_ready_reuse [OF assms(1) nz])
      then show ?thesis using r c by simp
    qed
  qed
qed

lemma Get_empty_chain:
  assumes "ready D E l off" and "free l = 0"
  shows "\<exists>r l' w'. Get D E l w = (r, l', w') \<and> ready D E l' off \<and> free l' = 0
           \<and> New l' = New l \<and> Reset l' = Reset l
           \<and> (New l = None \<longrightarrow> r = Inr 0 \<and> w' = w)"
proof -
  let ?l' = "l\<lparr>next := off, initOnce := True\<rparr>"
  have r: "ready D E ?l' off" using assms(1) by (simp add: ready_def)
  show ?thesis
    using r assms(2)
    by (cases "New l")
      (auto simp add: Get_ready_empty [OF assms] Let_def split: prod.splits sum.splits)
qed

lemma reset_respects_cong:
  "Reset l' = Reset l \<Longrightarrow> reset_respects l' off U = reset_respects l off U"
  by (simp add: reset_respects_def)

lemma reset_returns_cong:
  "Reset l' = Reset l \<Longrightarrow> reset_returns l' = reset_returns l"
  by (simp add: reset_returns_def)

text \<open>The pool follows the list of idle elements through any correct use.\<close>

lemma run_tracks:
  assumes "ready D E l off" and "chain off (heap w) (free l) ys" and "distinct ys"
    and "used_correctly ys cs" and "set ys \<union> set (puts cs) \<subseteq> U" and "reset_respects l off U"
  shows "\<exists>rs l' w'. run D E cs l w = (rs, l', w') \<and> ready D E l' off
           \<and> chain off (heap w') (free l') (idle_after ys cs) \<and> distinct (idle_after ys cs)
           \<and> New l' = New l \<and> Reset l' = Reset l
           \<and> (New l = None \<and> reset_returns l \<longrightarrow> rs = expected ys cs)"
  using assms
proof (induction cs arbitrary: l w ys)
  case Nil
  then show ?case by simp
next
  case (Cons c cs)
  show ?case
  proof (cases c)
    case (OpPut x)
    with Cons.prems have x: "x \<noteq> 0" "x \<notin> set ys" and uc: "used_correctly (x # ys) cs"
      and sub: "set (x # ys) \<union> set (puts cs) \<subseteq> U"
      by auto
    from Put_chain [OF Cons.prems(1,2) x] obtain l1 w1 where
      p: "Put D E l x w = (Inr (), l1, w1)" and r1: "ready D E l1 off"
      and c1: "chain off (heap w1) (free l1) (x # ys)"
      and h1: "New l1 = New l" "Reset l1 = Reset l"
      by blast
    have d1: "distinct (x # ys)" using x Cons.prems(3) by simp
    have rr: "reset_respects l1 off U"
      using Cons.prems(6) reset_respects_cong [OF h1(2)] by simp
    from Cons.IH [OF r1 c1 d1 uc sub rr] obtain rs l' w' where
      rn: "run D E cs l1 w1 = (rs, l', w')" and fin: "ready D E l' off"
      "chain off (heap w') (free l') (idle_after (x # ys) cs)"
      "distinct (idle_after (x # ys) cs)" and h2: "New l' = New l1" "Reset l' = Reset l1"
      and e2: "New l1 = None \<and> reset_returns l1 \<longrightarrow> rs = expected (x # ys) cs"
      by blast
    have full: "run D E (c # cs) l w = (PutDone # rs, l', w')"
      using p rn OpPut by (simp add: step_def)
    have ia: "idle_after ys (c # cs) = idle_after (x # ys) cs"
      using OpPut by simp
    have hk: "New l' = New l" "Reset l' = Reset l"
      using h1 h2 by simp_all
    have ex: "New l = None \<and> reset_returns l \<longrightarrow> PutDone # rs = expected ys (c # cs)"
      using e2 h1 reset_returns_cong [OF h1(2)] OpPut by simp
    show ?thesis
    proof (intro exI conjI)
      show "run D E (c # cs) l w = (PutDone # rs, l', w')" by (rule full)
    qed (simp_all add: fin ia hk ex)
  next
    case OpGet
    with Cons.prems have uc: "used_correctly (tl ys) cs"
      and sub: "set ys \<union> set (puts cs) \<subseteq> U"
      by auto
    have "\<exists>r l1 w1. Get D E l w = (r, l1, w1) \<and> ready D E l1 off
            \<and> chain off (heap w1) (free l1) (tl ys) \<and> New l1 = New l \<and> Reset l1 = Reset l
            \<and> (New l = None \<and> reset_returns l \<longrightarrow>
                  r = Inr (case ys of [] \<Rightarrow> 0 | y # zs \<Rightarrow> y))"
    proof (cases ys)
      case Nil
      with Cons.prems(2) have "free l = 0" by simp
      from Get_empty_chain [OF Cons.prems(1) this, of w] obtain r l1 w1 where
        "Get D E l w = (r, l1, w1)" "ready D E l1 off" "free l1 = 0"
        "New l1 = New l" "Reset l1 = Reset l" "New l = None \<longrightarrow> r = Inr 0 \<and> w1 = w"
        by (elim exE conjE) (rule that; assumption)
      with Nil show ?thesis by simp
    next
      case (Cons y ys')
      from Cons.prems(2,3) sub Cons have
        "chain off (heap w) (free l) (y # ys')" "distinct (y # ys')" "set (y # ys') \<subseteq> U"
        by auto
      from Get_chain [OF \<open>ready D E l off\<close> this \<open>reset_respects l off U\<close>]
      obtain r l1 w1 where
        "Get D E l w = (r, l1, w1)" "ready D E l1 off" "chain off (heap w1) (free l1) ys'"
        "New l1 = New l" "Reset l1 = Reset l"
        "r = Inr y \<or> (\<exists>e. r = Inl e \<and> \<not> reset_returns l)"
        by blast
      with Cons show ?thesis by auto
    qed
    then obtain r l1 w1 where
      g: "Get D E l w = (r, l1, w1)" and r1: "ready D E l1 off"
      and c1: "chain off (heap w1) (free l1) (tl ys)"
      and h1: "New l1 = New l" "Reset l1 = Reset l"
      and o: "New l = None \<and> reset_returns l \<longrightarrow> r = Inr (case ys of [] \<Rightarrow> 0 | y # zs \<Rightarrow> y)"
      by blast
    have d1: "distinct (tl ys)" using Cons.prems(3) by (simp add: distinct_tl)
    have sub1: "set (tl ys) \<union> set (puts cs) \<subseteq> U"
      using sub by (cases ys) auto
    have rr: "reset_respects l1 off U"
      using Cons.prems(6) reset_respects_cong [OF h1(2)] by simp
    from Cons.IH [OF r1 c1 d1 uc sub1 rr] obtain rs l' w' where
      rn: "run D E cs l1 w1 = (rs, l', w')" and fin: "ready D E l' off"
      "chain off (heap w') (free l') (idle_after (tl ys) cs)"
      "distinct (idle_after (tl ys) cs)" and h2: "New l' = New l1" "Reset l' = Reset l1"
      and e2: "New l1 = None \<and> reset_returns l1 \<longrightarrow> rs = expected (tl ys) cs"
      by blast
    obtain o1 where st: "step D E c l w = (o1, l1, w1)" and nk: "o1 \<noteq> Killed"
      and o1: "New l = None \<and> reset_returns l \<longrightarrow> o1 = (case ys of [] \<Rightarrow> Got 0 | y # zs \<Rightarrow> Got y)"
      using g o OpGet by (cases r) (auto simp add: step_def split: list.splits)
    from st nk have full: "run D E (c # cs) l w = (o1 # rs, l', w')"
      using rn by simp
    have ex: "New l = None \<and> reset_returns l \<longrightarrow> o1 # rs = expected ys (c # cs)"
      using e2 o1 h1 reset_returns_cong [OF h1(2)] OpGet by simp
    have ia: "idle_after ys (c # cs) = idle_after (tl ys) cs"
      using OpGet by simp
    have hk: "New l' = New l" "Reset l' = Reset l"
      using h1 h2 by simp_all
    show ?thesis
    proof (intro exI conjI)
      show "run D E (c # cs) l w = (o1 # rs, l', w')" by (rule full)
    qed (simp_all add: fin ia hk ex)
  qed
qed

subsection \<open>Stacks\<close>

lemma idle_after_append: "idle_after ys (as @ bs) = idle_after (idle_after ys as) bs"
  by (induction ys as rule: idle_after.induct) simp_all

lemma used_correctly_append:
  "used_correctly ys (as @ bs) = (used_correctly ys as \<and> used_correctly (idle_after ys as) bs)"
  by (induction ys as rule: used_correctly.induct) simp_all

lemma expected_append:
  "expected ys (as @ bs) = expected ys as @ expected (idle_after ys as) bs"
  by (induction ys as rule: expected.induct) simp_all

lemma puts_append: "puts (as @ bs) = puts as @ puts bs"
  by (induction as rule: puts.induct) simp_all

lemma idle_after_Puts: "idle_after ys (map OpPut xs) = rev xs @ ys"
  by (induction xs arbitrary: ys) simp_all

lemma used_correctly_Puts:
  "used_correctly ys (map OpPut xs) = (distinct xs \<and> 0 \<notin> set xs \<and> set xs \<inter> set ys = {})"
  by (induction xs arbitrary: ys) auto

lemma expected_Puts: "expected ys (map OpPut xs) = replicate (length xs) PutDone"
  by (induction xs arbitrary: ys) simp_all

lemma puts_Puts: "puts (map OpPut xs) = xs"
  by (induction xs) simp_all

lemma idle_after_Gets: "idle_after (zs @ ys) (replicate (length zs) OpGet) = ys"
  by (induction zs) simp_all

lemma used_correctly_Gets: "used_correctly ys (replicate n OpGet)"
  by (induction n arbitrary: ys) simp_all

lemma expected_Gets: "expected (zs @ ys) (replicate (length zs) OpGet) = map Got zs"
  by (induction zs) simp_all

lemma puts_Gets: "puts (replicate n OpGet) = []"
  by (induction n) simp_all

subsection \<open>The baseline simulates the generic pool\<close>

lemma init_wellformed:
  "wellformed D E l off \<Longrightarrow> init D E l w = (Inr (), l\<lparr>next := off, initOnce := True\<rparr>, w)"
  by (cases "initOnce l") (simp_all add: wellformed_def init_done init_first_ok declared_next_resolved)

lemma step_simulates:
  assumes "wellformed D E l off" and "same_pool l n" and "off < 0x1000 \<or> c \<noteq> OpPut 0"
  shows "\<exists>r l' n' w'. step D E c l w = (r, l', w') \<and> step_native off c n w = (r, n', w')
           \<and> r \<noteq> Killed \<and> wellformed D E l' off \<and> same_pool l' n'"
proof (cases c)
  case OpGet
  show ?thesis
    using assms(2) assms(1) [unfolded wellformed_def]
    by (auto simp add: OpGet step_def step_native_def Get_def Get_native_def
        init_wellformed [OF assms(1)] Lock_def Lock_native_def Unlock_def Unlock_native_def
        same_pool_def wellformed_def Let_def
        split: option.splits prod.splits sum.splits)
next
  case (OpPut x)
  show ?thesis
    using assms(2,3) assms(1) [unfolded wellformed_def]
    by (auto simp add: OpPut step_def step_native_def Put_def Put_native_def
        init_wellformed [OF assms(1)] Lock_def Lock_native_def Unlock_def Unlock_native_def
        same_pool_def wellformed_def Let_def
        split: option.splits prod.splits sum.splits)
qed

subsection \<open>The once-guard\<close>

text \<open>\<^verbatim>\<open>init\<close> never reaches its \<^verbatim>\<open>log.Print\<close>: the world is as before (\<open>init_world\<close>).\<close>

lemma init_sets_once: "initOnce (fst (snd (init D E l w)))"
  by (cases "initOnce l"; cases "resolved_offset D E")
    (simp_all add: init_done init_first_ok init_first_panic)

lemma init_world: "snd (snd (init D E l w)) = w"
  by (cases "initOnce l"; cases "resolved_offset D E")
    (simp_all add: init_done init_first_ok init_first_panic)

lemma init_cases:
  "init D E l w =
     (if initOnce l then (Inr (), l, w)
      else case resolved_offset D E of
             Some off \<Rightarrow> (Inr (), l\<lparr>next := off, initOnce := True\<rparr>, w)
           | None \<Rightarrow> (Inl TypeAssertionPanic, l\<lparr>initOnce := True\<rparr>, w))"
  by (cases "initOnce l"; cases "resolved_offset D E")
    (simp_all add: init_done init_first_ok init_first_panic)

lemma step_after_init:
  "step D E c l w =
     (case init D E l w of
        (Inl e, l0, w0) \<Rightarrow> (Failed e, l0, w0)
      | (Inr u, l0, w0) \<Rightarrow> step D E c l0 w0)"
proof (cases "init D E l w")
  case (fields r l0 w0)
  have once: "initOnce l0" using init_sets_once [of D E l w] fields by simp
  show ?thesis
  proof (cases r)
    case (Inl e)
    with fields show ?thesis by (cases c) (simp_all add: step_def Get_def Put_def)
  next
    case (Inr u)
    with fields once show ?thesis
      by (cases c) (simp_all add: step_def Get_def Put_def init_done)
  qed
qed

lemma step_keeps_offset:
  assumes "initOnce l" and "step D E c l w = (r, l', w')"
  shows "initOnce l' \<and> next l' = next l"
  using assms
  by (cases c)
    (auto simp add: step_def Get_def Put_def init_done Lock_def Unlock_def Let_def
      split: if_splits option.splits prod.splits sum.splits put_failure.splits)

lemma run_keeps_offset:
  assumes "initOnce l" and "run D E cs l w = (rs, l', w')"
  shows "initOnce l' \<and> next l' = next l"
  using assms
proof (induction cs arbitrary: l w rs)
  case Nil
  then show ?case by simp
next
  case (Cons c cs)
  obtain r l1 w1 where s: "step D E c l w = (r, l1, w1)" by (cases "step D E c l w")
  from step_keeps_offset [OF Cons.prems(1) s] have k1: "initOnce l1" "next l1 = next l"
    by simp_all
  show ?case
  proof (cases "r = Killed")
    case True
    with Cons.prems(2) s have "l' = l1" by simp
    with k1 show ?thesis by simp
  next
    case False
    then obtain rs1 where r1: "run D E cs l1 w1 = (rs1, l', w')"
      using Cons.prems(2) s by (auto split: prod.splits)
    from Cons.IH [OF k1(1) r1] k1 show ?thesis by simp
  qed
qed

text \<open>On a type whose linkage can be resolved, the first call caches the offset and
  no later call changes it.\<close>

lemma resolvable_offset_once:
  assumes "resolved_offset D E = Some off" and "\<not> initOnce l"
    and "step D E c l w = (r, l1, w1)" and "run D E cs l1 w1 = (rs, l', w')"
  shows "initOnce l1 \<and> next l1 = off \<and> initOnce l' \<and> next l' = off"
proof -
  let ?l0 = "l\<lparr>next := off, initOnce := True\<rparr>"
  have "step D E c ?l0 w = (r, l1, w1)"
    using assms(3) by (simp add: step_after_init [of D E c l w] init_first_ok [OF assms(2,1)])
  from step_keeps_offset [OF _ this] have k: "initOnce l1" "next l1 = off" by simp_all
  from run_keeps_offset [OF k(1) assms(4)] k show ?thesis by simp
qed

subsection \<open>The example types\<close>

lemma ready_fresh_T: "ready test_types (Defined ''T'') (fresh new reset) 8"
  by (simp add: ready_def fresh_def resolved_offset_T)

lemma resolved_offset_NoNext:
  "resolved_offset test_types (Defined ''StructNoNextField'') = None"
  by (simp add: resolved_offset_def init_func_def FieldByName_def test_types_def fresh_def)

lemma FieldByName_promoted:
  "FieldByName promoted_types (Defined ''E'') ''next''
     = Some \<lparr>Name = ''next'', Type = PointerTo (Defined ''E''), Offset = 0, Anonymous = False\<rparr>"
  by (simp add: FieldByName_def FieldByNameFunc_def promoted_types_def embeddedStruct_def)

lemma Kind_of_promoted: "Kind_of promoted_types (Defined ''E'') = Struct"
  by (simp add: promoted_types_def)

lemma resolved_offset_promoted: "resolved_offset promoted_types (Defined ''E'') = Some 0"
  by (simp add: resolved_offset_def init_func_def FieldByName_promoted Kind_of_promoted
      fresh_def Let_def del: Kind_of.simps)

subsection \<open>Types whose linkage cannot be resolved\<close>

lemma resolved_offset_None_iff:
  "resolved_offset D E = None \<longleftrightarrow>
     Kind_of D E \<noteq> Struct \<or> FieldByName D E ''next'' = None
     \<or> (\<exists>f. FieldByName D E ''next'' = Some f \<and> Type f \<noteq> PointerTo E)"
  by (auto simp add: resolved_offset_def init_func_def fresh_def Let_def split: option.splits)

lemma first_call_panics:
  assumes "\<not> initOnce l" and "resolved_offset D E = None"
  shows "Get D E l w = (Inl TypeAssertionPanic, l\<lparr>initOnce := True\<rparr>, w)"
    and "Put D E l x w = (Inl (Fails TypeAssertionPanic), l\<lparr>initOnce := True\<rparr>, w)"
  using assms by (simp_all add: Get_def Put_def init_first_panic)

subsection \<open>Hook calls\<close>

lemma Get_calls:
  assumes "ready D E l off"
    and "New l = map_option traced_new new"
    and "Reset l = map_option traced_reset reset"
  shows "case Get D E l w of (res, l', w') \<Rightarrow>
           (if free l \<noteq> 0 then
              calls w' = calls w @ (case reset of None \<Rightarrow> [] | Some r \<Rightarrow> [ResetCalled (free l)])
              \<and> untraced w' = (case reset of None \<Rightarrow> untraced w | Some r \<Rightarrow> snd (r (free l) (untraced w)))
              \<and> res = (case reset of None \<Rightarrow> Inr (free l)
                        | Some r \<Rightarrow> (case fst (r (free l) (untraced w)) of
                                       Inl e \<Rightarrow> Inl e | Inr u \<Rightarrow> Inr (free l)))
            else
              calls w' = calls w @ (case new of None \<Rightarrow> [] | Some n \<Rightarrow> [NewCalled])
              \<and> untraced w' = (case new of None \<Rightarrow> untraced w | Some n \<Rightarrow> snd (n (untraced w)))
              \<and> res = (case new of None \<Rightarrow> Inr 0 | Some n \<Rightarrow> fst (n (untraced w))))"
proof (cases "free l = 0")
  case True
  show ?thesis
    using True assms(2)
    by (cases new)
      (auto simp add: Get_ready_empty [OF assms(1) True] traced_new_def Let_def
        split: prod.splits sum.splits)
next
  case False
  show ?thesis
    using False assms(3)
    by (cases reset)
      (auto simp add: Get_ready_reuse [OF assms(1) False] traced_reset_def Let_def
        split: prod.splits sum.splits)
qed

lemma Put_ext: "ext (snd (snd (Put D E l x w))) = ext w"
  by (auto simp add: Put_def init_cases Lock_def Unlock_def Let_def split: option.splits)

lemma step_calls:
  assumes "ready D E l off"
    and "New l = map_option traced_new new"
    and "Reset l = map_option traced_reset reset"
    and "chain off (heap w) (free l) ys"
  shows "calls (snd (snd (step D E c l w)))
           = calls w @ hook_trace (new \<noteq> None) (reset \<noteq> None) ys [c]"
proof (cases c)
  case (OpPut x)
  have "calls (snd (snd (Put D E l x w))) = calls w"
    using Put_ext [of D E l x w] by (simp add: calls_def)
  moreover have "snd (snd (step D E c l w)) = snd (snd (Put D E l x w))"
    using OpPut
    by (cases "Put D E l x w") (simp add: step_def split: sum.splits put_failure.splits)
  ultimately show ?thesis
    using OpPut by simp
next
  case OpGet
  obtain res l' w' where g: "Get D E l w = (res, l', w')" by (cases "Get D E l w")
  have st: "snd (snd (step D E c l w)) = w'"
    using g OpGet by (simp add: step_def split: sum.splits)
  show ?thesis
  proof (cases ys)
    case Nil
    with assms(4) have "free l = 0" by simp
    with Get_calls [OF assms(1,2,3), of w] g
    have "calls w' = calls w @ (case new of None \<Rightarrow> [] | Some n \<Rightarrow> [NewCalled])"
      by (cases new) simp_all
    then show ?thesis using st Nil OpGet by (cases new) simp_all
  next
    case (Cons y zs)
    with assms(4) have "free l = y" "free l \<noteq> 0" by auto
    with Get_calls [OF assms(1,2,3), of w] g
    have "calls w' = calls w @ (case reset of None \<Rightarrow> [] | Some r \<Rightarrow> [ResetCalled y])"
      by (cases reset) simp_all
    then show ?thesis using st Cons OpGet by (cases reset) simp_all
  qed
qed

lemma hook_trace_append:
  "hook_trace n r ys (as @ bs) = hook_trace n r ys as @ hook_trace n r (idle_after ys as) bs"
  by (induction ys as rule: idle_after.induct) simp_all

lemma run_calls:
  assumes "ready D E l off"
    and "New l = map_option traced_new new"
    and "Reset l = map_option traced_reset reset"
    and "chain off (heap w) (free l) ys" and "distinct ys"
    and "used_correctly ys cs" and "set ys \<union> set (puts cs) \<subseteq> U" and "reset_respects l off U"
  shows "calls (snd (snd (run D E cs l w)))
           = calls w @ hook_trace (new \<noteq> None) (reset \<noteq> None) ys cs"
  using assms
proof (induction cs arbitrary: l w ys)
  case Nil
  then show ?case by simp
next
  case (Cons c cs)
  have uc1: "used_correctly ys [c]" and uc2: "used_correctly (idle_after ys [c]) cs"
    using Cons.prems(6) used_correctly_append [of ys "[c]" cs] by simp_all
  have sub1: "set ys \<union> set (puts [c]) \<subseteq> U"
    using Cons.prems(7) puts_append [of "[c]" cs] by auto
  from run_tracks [OF Cons.prems(1,4,5) uc1 sub1 Cons.prems(8)] obtain rs l1 w1 where
    r1: "run D E [c] l w = (rs, l1, w1)" and rd: "ready D E l1 off"
    and ch: "chain off (heap w1) (free l1) (idle_after ys [c])"
    and di: "distinct (idle_after ys [c])"
    and hk: "New l1 = New l" "Reset l1 = Reset l"
    by blast
  obtain o1 where st: "step D E c l w = (o1, l1, w1)"
    using r1 by (auto split: prod.splits if_splits)
  have nk: "o1 \<noteq> Killed"
  proof
    assume "o1 = Killed"
    with st have "c = OpPut 0" by (simp add: step_Killed)
    with uc1 show False by simp
  qed
  have sub2: "set (idle_after ys [c]) \<union> set (puts cs) \<subseteq> U"
    using Cons.prems(7) uc1 by (cases c; cases ys) auto
  have rr: "reset_respects l1 off U"
    using Cons.prems(8) reset_respects_cong [OF hk(2)] by simp
  have n1: "New l1 = map_option traced_new new" and t1: "Reset l1 = map_option traced_reset reset"
    using hk Cons.prems(2,3) by simp_all
  have "calls (snd (snd (run D E cs l1 w1)))
          = calls w1 @ hook_trace (new \<noteq> None) (reset \<noteq> None) (idle_after ys [c]) cs"
    by (rule Cons.IH [OF rd n1 t1 ch di uc2 sub2 rr])
  moreover have "calls w1 = calls w @ hook_trace (new \<noteq> None) (reset \<noteq> None) ys [c]"
    using step_calls [OF Cons.prems(1,2,3,4), of c] st by simp
  moreover have "snd (snd (run D E (c # cs) l w)) = snd (snd (run D E cs l1 w1))"
    using st nk by (simp split: prod.splits)
  ultimately show ?case
    using hook_trace_append [of "new \<noteq> None" "reset \<noteq> None" ys "[c]" cs] by simp
qed

lemma idle_after_subset: "set (idle_after ys cs) \<subseteq> set ys \<union> set (puts cs)"
proof (induction ys cs rule: idle_after.induct)
  case (1 ys)
  then show ?case by simp
next
  case (2 ys x cs)
  then show ?case by auto
next
  case (3 ys cs)
  then show ?case by (cases ys) auto
qed

lemma resets_since_put:
  assumes "distinct ys" and "used_correctly ys cs" and "x \<notin> set (puts cs)"
  shows "length (filter (\<lambda>c. c = ResetCalled x) (hook_trace n True ys cs))
           = (if x \<in> set ys \<and> x \<notin> set (idle_after ys cs) then 1 else 0)"
  using assms
proof (induction ys cs rule: idle_after.induct)
  case (1 ys)
  then show ?case by simp
next
  case (2 ys y cs)
  then show ?case by auto
next
  case (3 ys cs)
  show ?case
  proof (cases ys)
    case Nil
    with 3 show ?thesis by simp
  next
    case (Cons y zs)
    from 3 Cons have d: "distinct zs" "y \<notin> set zs" and u: "used_correctly zs cs"
      and nx: "x \<notin> set (puts cs)" by simp_all
    have ih: "length (filter (\<lambda>c. c = ResetCalled x) (hook_trace n True zs cs))
                = (if x \<in> set zs \<and> x \<notin> set (idle_after zs cs) then 1 else 0)"
      using 3 Cons d(1) by simp
    show ?thesis
    proof (cases "y = x")
      case True
      with d have "x \<notin> set zs" by simp
      with nx idle_after_subset [of zs cs] have "x \<notin> set (idle_after zs cs)" by auto
      with ih True \<open>x \<notin> set zs\<close> Cons show ?thesis by simp
    next
      case False
      with ih Cons show ?thesis by simp
    qed
  qed
qed

section \<open>The properties\<close>

text \<open>
  C1. On a pool with no \<^verbatim>\<open>New\<close> and an empty list, \<open>n\<close> calls of \<^verbatim>\<open>Put\<close> with distinct non-nil
  elements followed by \<open>n\<close> calls of \<^verbatim>\<open>Get\<close> return the elements in the reverse order of
  the puts, and one more \<^verbatim>\<open>Get\<close> returns \<^verbatim>\<open>nil\<close>. A \<^verbatim>\<open>Reset\<close> hook, if there is one, is assumed
  to return and to leave the linkage words of the other elements alone.
\<close>

theorem C1_lifo:
  assumes "ready D E l off" and "free l = 0" and "New l = None"
    and "distinct xs" and "0 \<notin> set xs"
    and "reset_returns l" and "reset_respects l off (set xs)"
  shows "fst (run D E (map OpPut xs @ replicate (length xs) OpGet @ [OpGet]) l w)
           = replicate (length xs) PutDone @ map Got (rev xs) @ [Got 0]"
proof -
  let ?cs = "map OpPut xs @ replicate (length xs) OpGet @ [OpGet]"
  have c0: "chain off (heap w) (free l) []" using assms(2) by simp
  have uc: "used_correctly [] ?cs"
    using assms(4,5) by (simp add: used_correctly_append used_correctly_Puts used_correctly_Gets)
  have sub: "set [] \<union> set (puts ?cs) \<subseteq> set xs"
    by (simp add: puts_append puts_Puts puts_Gets)
  from run_tracks [OF assms(1) c0 _ uc sub assms(7)] obtain rs l' w' where
    "run D E ?cs l w = (rs, l', w')"
    "New l = None \<and> reset_returns l \<longrightarrow> rs = expected [] ?cs"
    by auto
  with assms(3,6) have "fst (run D E ?cs l w) = expected [] ?cs" by simp
  also have "expected [] ?cs = replicate (length xs) PutDone @ map Got (rev xs) @ [Got 0]"
    using expected_Gets [of "rev xs" "[]"] idle_after_Gets [of "rev xs" "[]"]
    by (simp add: expected_append expected_Puts idle_after_Puts idle_after_append)
  finally show ?thesis .
qed

theorem C1_lifo_witness:
  "fst (run test_types (Defined ''T'')
          (map OpPut [0x20, 0x40] @ replicate (length [0x20, 0x40 :: uintptr]) OpGet @ [OpGet])
          (fresh None (Some zeroing_reset)) zero_world)
     = [PutDone, PutDone, Got 0x40, Got 0x20, Got 0]"
proof -
  let ?l = "fresh None (Some zeroing_reset)"
  have f: "free ?l = 0" and n: "New ?l = None" by (simp_all add: fresh_def)
  have d: "distinct [0x20, 0x40 :: uintptr]" by simp
  have z: "0 \<notin> set [0x20, 0x40 :: uintptr]" by simp
  have rr: "reset_returns ?l" by (simp add: reset_returns_def fresh_def zeroing_reset_def)
  have rs: "reset_respects ?l 8 (set [0x20, 0x40])"
    by (auto simp add: reset_respects_def fresh_def zeroing_reset_def)
  from C1_lifo [OF ready_fresh_T f n d z rr rs, of zero_world] show ?thesis by simp
qed

text \<open>
  C2. A pool over a type whose linkage cannot be resolved panics in its first call
  (\<open>first_call_panics\<close>). That first call, however, leaves the \<^verbatim>\<open>sync.Once\<close> done, and
  \<^verbatim>\<open>didPanic\<close> is a fresh local variable of every call of \<^verbatim>\<open>init\<close>: in a later call \<^verbatim>\<open>Do\<close> does
  not run the closure, \<^verbatim>\<open>didPanic\<close> is still false, and \<^verbatim>\<open>init\<close> returns. On the type
  \<^verbatim>\<open>StructNoNextField\<close> of \<^verbatim>\<open>TestPanics\<close>, after a first \<^verbatim>\<open>Get\<close> that panics, a second \<^verbatim>\<open>Get\<close>
  returns \<^verbatim>\<open>nil\<close>, and \<^verbatim>\<open>Put\<close> and \<^verbatim>\<open>Get\<close> then work with the offset 0 that was never
  resolved: \<^verbatim>\<open>Put\<close> stores the old head over the field \<^verbatim>\<open>A\<close> of the element. The message
  of \<^verbatim>\<open>log.Print\<close> is never written.
\<close>

theorem C2_later_calls_return:
  "fst (run test_types (Defined ''StructNoNextField'') [OpGet, OpGet, OpPut 0x20, OpPut 0x40, OpGet]
          (fresh None None :: unit FreeList) zero_world)
     = [Failed TypeAssertionPanic, Got 0, PutDone, PutDone, Got 0x40]
   \<and> heap (snd (snd (run test_types (Defined ''StructNoNextField'')
                        [OpGet, OpGet, OpPut 0x20, OpPut 0x40]
                        (fresh None None :: unit FreeList) zero_world))) 0x40 = 0x20
   \<and> stderr (snd (snd (run test_types (Defined ''StructNoNextField'')
                          [OpGet, OpGet, OpPut 0x20, OpPut 0x40, OpGet]
                          (fresh None None :: unit FreeList) zero_world))) = []"
  by (simp add: step_def Get_def Put_def init_cases resolved_offset_NoNext
      Lock_def Unlock_def fresh_def zero_world_def Let_def)

text \<open>
  C3. The hooks are observed through their logging wrappers. A \<^verbatim>\<open>Get\<close> that finds an
  element in the list calls \<^verbatim>\<open>Reset\<close>, if configured, exactly once, on that element, and
  nothing else; it returns the element unless the hook panics. A \<^verbatim>\<open>Get\<close> that finds the
  list empty calls \<^verbatim>\<open>New\<close>, if configured, exactly once and nothing else: its result is
  the result of \<^verbatim>\<open>New\<close> and the world is as \<^verbatim>\<open>New\<close> left it, no \<^verbatim>\<open>Reset\<close> applied. Over a
  correctly used sequence of calls the hook calls are those of \<open>hook_trace\<close>: \<^verbatim>\<open>Put\<close> calls
  no hook, and \<^verbatim>\<open>Reset\<close> has been applied to an element that was idle at the start and was
  not put again exactly once if the element has left the list, and not at all
  while it is still idle.
\<close>

theorem C3_hooks_once:
  assumes "ready D E l off"
    and "New l = map_option traced_new new"
    and "Reset l = map_option traced_reset reset"
    and "chain off (heap w) (free l) ys" and "distinct ys"
    and "used_correctly ys cs" and "reset_respects l off (set ys \<union> set (puts cs))"
  shows "(case Get D E l w of (res, l', w') \<Rightarrow>
           (if free l \<noteq> 0 then
              calls w' = calls w @ (case reset of None \<Rightarrow> [] | Some r \<Rightarrow> [ResetCalled (free l)])
              \<and> untraced w' = (case reset of None \<Rightarrow> untraced w | Some r \<Rightarrow> snd (r (free l) (untraced w)))
              \<and> res = (case reset of None \<Rightarrow> Inr (free l)
                        | Some r \<Rightarrow> (case fst (r (free l) (untraced w)) of
                                       Inl e \<Rightarrow> Inl e | Inr u \<Rightarrow> Inr (free l)))
            else
              calls w' = calls w @ (case new of None \<Rightarrow> [] | Some n \<Rightarrow> [NewCalled])
              \<and> untraced w' = (case new of None \<Rightarrow> untraced w | Some n \<Rightarrow> snd (n (untraced w)))
              \<and> res = (case new of None \<Rightarrow> Inr 0 | Some n \<Rightarrow> fst (n (untraced w)))))
       \<and> calls (snd (snd (run D E cs l w)))
           = calls w @ hook_trace (new \<noteq> None) (reset \<noteq> None) ys cs
       \<and> (\<forall>x. x \<notin> set (puts cs) \<longrightarrow>
             length (filter (\<lambda>c. c = ResetCalled x) (hook_trace (new \<noteq> None) True ys cs))
               = (if x \<in> set ys \<and> x \<notin> set (idle_after ys cs) then 1 else 0))"
proof (intro conjI allI impI)
  show "case Get D E l w of (res, l', w') \<Rightarrow>
           (if free l \<noteq> 0 then
              calls w' = calls w @ (case reset of None \<Rightarrow> [] | Some r \<Rightarrow> [ResetCalled (free l)])
              \<and> untraced w' = (case reset of None \<Rightarrow> untraced w | Some r \<Rightarrow> snd (r (free l) (untraced w)))
              \<and> res = (case reset of None \<Rightarrow> Inr (free l)
                        | Some r \<Rightarrow> (case fst (r (free l) (untraced w)) of
                                       Inl e \<Rightarrow> Inl e | Inr u \<Rightarrow> Inr (free l)))
            else
              calls w' = calls w @ (case new of None \<Rightarrow> [] | Some n \<Rightarrow> [NewCalled])
              \<and> untraced w' = (case new of None \<Rightarrow> untraced w | Some n \<Rightarrow> snd (n (untraced w)))
              \<and> res = (case new of None \<Rightarrow> Inr 0 | Some n \<Rightarrow> fst (n (untraced w))))"
    by (rule Get_calls [OF assms(1,2,3)])
next
  show "calls (snd (snd (run D E cs l w)))
          = calls w @ hook_trace (new \<noteq> None) (reset \<noteq> None) ys cs"
    by (rule run_calls [OF assms(1,2,3,4,5,6) subset_refl assms(7)])
next
  fix x assume "x \<notin> set (puts cs)"
  with assms(5,6)
  show "length (filter (\<lambda>c. c = ResetCalled x) (hook_trace (new \<noteq> None) True ys cs))
          = (if x \<in> set ys \<and> x \<notin> set (idle_after ys cs) then 1 else 0)"
    by (rule resets_since_put)
qed

theorem C3_hooks_once_witness:
  "calls (snd (snd (run test_types (Defined ''T'') [OpGet, OpPut 0x20, OpGet, OpGet]
                      (fresh (Some (traced_new constant_new)) (Some (traced_reset zeroing_reset)))
                      (retraced zero_world []))))
     = [NewCalled, ResetCalled 0x20, NewCalled]"
proof -
  let ?l = "fresh (Some (traced_new constant_new)) (Some (traced_reset zeroing_reset))"
  let ?w = "retraced zero_world []"
  let ?cs = "[OpGet, OpPut 0x20, OpGet, OpGet]"
  have n: "New ?l = map_option traced_new (Some constant_new)"
    and r: "Reset ?l = map_option traced_reset (Some zeroing_reset)"
    by (simp_all add: fresh_def)
  have c: "chain 8 (heap ?w) (free ?l) []" by (simp add: fresh_def)
  have d: "distinct ([] :: uintptr list)" by simp
  have u: "used_correctly [] ?cs" by simp
  have rs: "reset_respects ?l 8 (set [] \<union> set (puts ?cs))"
    by (simp add: reset_respects_def)
  from C3_hooks_once [OF ready_fresh_T n r c d u rs]
  have "calls (snd (snd (run test_types (Defined ''T'') ?cs ?l ?w)))
          = calls ?w @ hook_trace (Some constant_new \<noteq> None) (Some zeroing_reset \<noteq> None) [] ?cs"
    by blast
  then show ?thesis by simp
qed

text \<open>
  C4. For a type without embedded fields, resolution yields exactly the offset of the
  declared field \<^verbatim>\<open>next\<close> of type pointer-to-\<open>E\<close>, and fails when there is none
  (\<open>no_embedding_resolved\<close>). With an embedded struct it does not: for the type \<open>E\<close> of
  \<open>promoted_types\<close>, which declares no field named \<^verbatim>\<open>next\<close>, \<^verbatim>\<open>FieldByName\<close> returns the
  field promoted from \<open>Link\<close>, its type is pointer-to-\<open>E\<close>, and resolution succeeds. The
  offset it caches is the one inside \<open>Link\<close>, 0, not the offset 8 of that field in \<open>E\<close>:
  \<^verbatim>\<open>Put\<close> then stores the old head over the field \<^verbatim>\<open>A\<close> of the element and leaves its
  linkage field alone.
\<close>

theorem C4_promoted_field:
  "declared_next promoted_types (Defined ''E'') = None
   \<and> resolved_offset promoted_types (Defined ''E'') = Some 0
   \<and> fst (run promoted_types (Defined ''E'') [OpPut 0x20, OpPut 0x40]
            (fresh None None :: unit FreeList) zero_world) = [PutDone, PutDone]
   \<and> heap (snd (snd (run promoted_types (Defined ''E'') [OpPut 0x20, OpPut 0x40]
                        (fresh None None :: unit FreeList) zero_world))) 0x40 = 0x20
   \<and> heap (snd (snd (run promoted_types (Defined ''E'') [OpPut 0x20, OpPut 0x40]
                        (fresh None None :: unit FreeList) zero_world))) 0x48 = 0"
proof -
  have d: "declared_next promoted_types (Defined ''E'') = None"
    by (simp add: declared_next_def promoted_types_def)
  have r: "run promoted_types (Defined ''E'') [OpPut 0x20, OpPut 0x40]
            (fresh None None :: unit FreeList) zero_world
          = ([PutDone, PutDone],
             \<lparr>mu = False, free = 0x40, initOnce = True, next = 0, New = None, Reset = None\<rparr>,
             \<lparr>heap = (\<lambda>a. 0)(0x20 := 0, 0x40 := 0x20), stderr = [], ext = ()\<rparr>)"
    by (simp add: step_def Put_def init_cases resolved_offset_promoted
        Lock_def Unlock_def fresh_def zero_world_def Let_def)
  show ?thesis unfolding r using d resolved_offset_promoted by simp
qed

text \<open>
  C5, as stated, fails: \<^verbatim>\<open>Put\<close> begins with \<^verbatim>\<open>l.init()\<close>, so the first call on a pool modifies
  more of the pool than its head. On a new pool over the tests' type \<open>T\<close>, \<^verbatim>\<open>Put\<close> returns
  normally, and the once-guard and the cached offset have changed with it.
\<close>

theorem C5_counterexample:
  "fst (Put test_types (Defined ''T'') (fresh None None :: unit FreeList) 0x20 zero_world) = Inr ()
   \<and> initOnce (fresh None None :: unit FreeList) = False
   \<and> initOnce (fst (snd (Put test_types (Defined ''T'') (fresh None None :: unit FreeList)
                              0x20 zero_world))) = True
   \<and> next (fresh None None :: unit FreeList) = 0
   \<and> next (fst (snd (Put test_types (Defined ''T'') (fresh None None :: unit FreeList)
                          0x20 zero_world))) = 8"
proof -
  have r: "ready test_types (Defined ''T'') (fresh None None :: unit FreeList) 8"
    by (simp add: ready_def fresh_def resolved_offset_T)
  show ?thesis
    by (simp add: Put_ready [OF r]) (simp add: fresh_def)
qed

text \<open>
  C5, amended. On a pool over a type that declares its field \<^verbatim>\<open>next\<close> of type
  pointer-to-\<open>E\<close> at offset \<open>off\<close>, with the mutex free, \<^verbatim>\<open>Put(x)\<close> for a non-nil \<open>x\<close> returns
  normally; it stores the current head in the \<^verbatim>\<open>next\<close> field of \<open>x\<close> (the word at
  \<open>x + off\<close>) and makes \<open>x\<close> the head. No other word of memory, no log output and no
  hook state changes, and the world after the call is the same whatever the hooks are:
  no hook is invoked. Of the pool, besides the head only the state of the one-time
  linkage resolution can change (the once-guard is set and the offset cached by the
  first call); on a pool whose once-guard is already set, only the head changes.
\<close>

theorem C5_put_frame:
  assumes "wellformed D E l off" and "\<not> mu l" and "x \<noteq> 0"
  shows "Put D E l x w =
           (Inr (), l\<lparr>next := off, initOnce := True, free := x\<rparr>,
            w\<lparr>heap := (heap w)(x + off := free l)\<rparr>)
       \<and> (initOnce l \<longrightarrow> l\<lparr>next := off, initOnce := True, free := x\<rparr> = l\<lparr>free := x\<rparr>)
       \<and> (\<forall>new reset. snd (snd (Put D E (l\<lparr>New := new, Reset := reset\<rparr>) x w))
                        = w\<lparr>heap := (heap w)(x + off := free l)\<rparr>)"
proof (intro conjI allI impI)
  from assms show "Put D E l x w =
           (Inr (), l\<lparr>next := off, initOnce := True, free := x\<rparr>,
            w\<lparr>heap := (heap w)(x + off := free l)\<rparr>)"
    by (simp add: Put_ready wellformed_ready)
next
  assume "initOnce l"
  with assms(1) have "next l = off" by (simp add: wellformed_def)
  with \<open>initOnce l\<close> show "l\<lparr>next := off, initOnce := True, free := x\<rparr> = l\<lparr>free := x\<rparr>"
    by simp
next
  fix new reset
  from assms(1,2) have "ready D E (l\<lparr>New := new, Reset := reset\<rparr>) off"
    by (simp add: wellformed_def ready_def declared_next_resolved)
  from Put_ready [OF this assms(3)]
  show "snd (snd (Put D E (l\<lparr>New := new, Reset := reset\<rparr>) x w))
          = w\<lparr>heap := (heap w)(x + off := free l)\<rparr>"
    by simp
qed

theorem C5_put_frame_witness:
  "wellformed test_types (Defined ''T'') (fresh None None :: unit FreeList) 8
   \<and> \<not> mu (fresh None None :: unit FreeList)
   \<and> (0x20 :: uintptr) \<noteq> 0
   \<and> Put test_types (Defined ''T'') (fresh None None) 0x20 zero_world =
       (Inr (), \<lparr>mu = False, free = 0x20, initOnce = True, next = 8, New = None, Reset = None\<rparr>,
        \<lparr>heap = (\<lambda>a. 0)(0x28 := 0), stderr = [], ext = ()\<rparr>)"
proof -
  have wf: "wellformed test_types (Defined ''T'') (fresh None None :: unit FreeList) 8"
    by (simp add: wellformed_def declared_next_T fresh_def)
  have un: "\<not> mu (fresh None None :: unit FreeList)" by (simp add: fresh_def)
  have nz: "(0x20 :: uintptr) \<noteq> 0" by simp
  from C5_put_frame [OF wf un nz, of zero_world]
  have "Put test_types (Defined ''T'') (fresh None None) 0x20 zero_world =
       (Inr (), \<lparr>mu = False, free = 0x20, initOnce = True, next = 8, New = None, Reset = None\<rparr>,
        \<lparr>heap = (\<lambda>a. 0)(0x28 := 0), stderr = [], ext = ()\<rparr>)"
    by (simp add: fresh_def zero_world_def)
  with wf un nz show ?thesis by blast
qed

text \<open>
  C6. The once-guard works as a guard: every call begins with \<^verbatim>\<open>init\<close> (\<open>step_after_init\<close>),
  once the guard is set \<^verbatim>\<open>init\<close> does nothing (\<open>init_done\<close>) and no later call changes the
  cached offset (\<open>run_keeps_offset\<close>); on a type whose linkage can be resolved the first
  call caches the offset before it touches the chain (\<open>resolvable_offset_once\<close>). But
  the guard is also set by a first call whose resolution panics, and then no offset is
  ever resolved: on \<^verbatim>\<open>StructNoNextField\<close> of \<^verbatim>\<open>TestPanics\<close>, where resolution yields nothing,
  after a first \<^verbatim>\<open>Get\<close> that panics two calls of \<^verbatim>\<open>Put\<close> return normally and build a chain
  (the head is the second element, whose first word now holds the first element)
  while the offset is still the zero value the pool was constructed with.
\<close>

theorem C6_chain_before_resolution:
  "resolved_offset test_types (Defined ''StructNoNextField'') = None
   \<and> run test_types (Defined ''StructNoNextField'') [OpGet, OpPut 0x20, OpPut 0x40]
         (fresh None None :: unit FreeList) zero_world
       = ([Failed TypeAssertionPanic, PutDone, PutDone],
          \<lparr>mu = False, free = 0x40, initOnce = True, next = 0, New = None, Reset = None\<rparr>,
          \<lparr>heap = (\<lambda>a. 0)(0x20 := 0, 0x40 := 0x20), stderr = [], ext = ()\<rparr>)"
  by (simp add: step_def Get_def Put_def init_cases resolved_offset_NoNext
      Lock_def Unlock_def fresh_def zero_world_def Let_def)

text \<open>
  C7. Start from a pool whose head chains the distinct elements \<open>ys\<close> up to \<^verbatim>\<open>nil\<close> (a new
  pool: \<open>ys\<close> empty) and use it correctly: every \<^verbatim>\<open>Put\<close> receives a non-nil element that
  is not idle, and \<^verbatim>\<open>Reset\<close> does not write the linkage word of another element. After
  every sequence of \<^verbatim>\<open>Get\<close> and \<^verbatim>\<open>Put\<close> calls the head again chains a list of distinct
  elements up to \<^verbatim>\<open>nil\<close>: the chain is finite and has no cycle. The list is the one the
  calls produce on a stack.
\<close>

theorem C7_chain_invariant:
  assumes "ready D E l off" and "chain off (heap w) (free l) ys" and "distinct ys"
    and "used_correctly ys cs" and "reset_respects l off (set ys \<union> set (puts cs))"
  shows "case run D E cs l w of
           (rs, l', w') \<Rightarrow>
             chain off (heap w') (free l') (idle_after ys cs) \<and> distinct (idle_after ys cs)
             \<and> ready D E l' off"
proof -
  from run_tracks [OF assms(1,2,3,4) subset_refl assms(5)] show ?thesis by auto
qed

theorem C7_chain_invariant_witness:
  "case run test_types (Defined ''T'') [OpPut 0x20, OpPut 0x40, OpGet]
          (fresh None (Some zeroing_reset)) zero_world of
     (rs, l', w') \<Rightarrow>
       chain 8 (heap w') (free l') [0x20] \<and> distinct [0x20 :: uintptr]
       \<and> ready test_types (Defined ''T'') l' 8"
proof -
  let ?l = "fresh None (Some zeroing_reset)"
  let ?cs = "[OpPut 0x20, OpPut 0x40, OpGet]"
  have c: "chain 8 (heap zero_world) (free ?l) []" by (simp add: fresh_def)
  have d: "distinct ([] :: uintptr list)" by simp
  have u: "used_correctly [] ?cs" by simp
  have rs: "reset_respects ?l 8 (set [] \<union> set (puts ?cs))"
    by (auto simp add: reset_respects_def fresh_def zeroing_reset_def)
  from C7_chain_invariant [OF ready_fresh_T c d u rs] show ?thesis by simp
qed

text \<open>
  C8. When \<^verbatim>\<open>Reset\<close> panics in the reuse branch, \<^verbatim>\<open>Get\<close> ends with that same panic. The pool
  it leaves behind has the element unlinked: its head is the successor the element
  pointed to, which \<^verbatim>\<open>Get\<close> had stored before it called the hook, and nothing of the
  pool changes after the hook. Provided the failing hook did not write the linkage
  word of an idle element, the remaining elements are still chained from the head, in
  the same order, and the pool is ready for further calls.
\<close>

theorem C8_reset_panic:
  assumes "ready D E l off"
    and "chain off (heap w) (free l) (x # xs)" and "distinct (x # xs)"
    and "Reset l = Some reset" and "reset x w = (Inl e, w1)"
    and "\<forall>y\<in>set xs. heap w1 (y + off) = heap w (y + off)"
  shows "\<exists>l'. Get D E l w = (Inl e, l', w1)
             \<and> free l' = heap w (x + off)
             \<and> chain off (heap w1) (free l') xs \<and> distinct xs
             \<and> ready D E l' off \<and> New l' = New l \<and> Reset l' = Reset l"
proof -
  from assms(2) have x: "free l = x" "x \<noteq> 0" and tl: "chain off (heap w) (heap w (x + off)) xs"
    by auto
  let ?l' = "l\<lparr>next := off, initOnce := True, free := heap w (free l + off)\<rparr>"
  from x have nz: "free l \<noteq> 0" by simp
  have g: "Get D E l w = (Inl e, ?l', w1)"
    using assms(4,5) x by (simp add: Get_ready_reuse [OF assms(1) nz])
  have c: "chain off (heap w1) (heap w (x + off)) xs"
    using tl assms(6) by (simp add: chain_cong [of xs "heap w1" off "heap w"])
  have r: "ready D E ?l' off"
    using assms(1) by (simp add: ready_def)
  from g c r assms(3) x show ?thesis by simp
qed

theorem C8_reset_panic_witness:
  "\<exists>l'. Get test_types (Defined ''T'')
            (fresh None (Some panicking_reset)\<lparr>free := 0x20, initOnce := True, next := 8\<rparr>)
            (zero_world\<lparr>heap := (heap zero_world)(0x20 := 7, 0x28 := 0x10)\<rparr>)
          = (Inl (HookPanic ''reset failed''), l',
             zero_world\<lparr>heap := (heap zero_world)(0x20 := 0, 0x28 := 0x10)\<rparr>)
        \<and> free l' = 0x10
        \<and> chain 8 ((heap zero_world)(0x20 := 0, 0x28 := 0x10)) (free l') [0x10]"
proof -
  let ?l = "fresh None (Some panicking_reset)\<lparr>free := 0x20, initOnce := True, next := 8\<rparr>"
  let ?w = "zero_world\<lparr>heap := (heap zero_world)(0x20 := 7, 0x28 := 0x10)\<rparr>"
  let ?w1 = "zero_world\<lparr>heap := (heap zero_world)(0x20 := 0, 0x28 := 0x10)\<rparr>"
  have r: "ready test_types (Defined ''T'') ?l 8" by (simp add: ready_def fresh_def)
  have c: "chain 8 (heap ?w) (free ?l) [0x20, 0x10]" by (simp add: fresh_def zero_world_def)
  have d: "distinct [0x20, 0x10 :: uintptr]" by simp
  have h: "Reset ?l = Some panicking_reset" by (simp add: fresh_def)
  have p: "panicking_reset 0x20 ?w = (Inl (HookPanic ''reset failed''), ?w1)"
    by (simp add: panicking_reset_def zero_world_def fun_upd_twist)
  have k: "\<forall>y\<in>set [0x10]. heap ?w1 (y + 8) = heap ?w (y + 8)" by simp
  from C8_reset_panic [OF r c d h p k] obtain l' where
    "Get test_types (Defined ''T'') ?l ?w = (Inl (HookPanic ''reset failed''), l', ?w1)"
    "free l' = heap ?w (0x20 + 8)" "chain 8 (heap ?w1) (free l') [0x10]"
    by blast
  then show ?thesis by (intro exI [of _ l']) (simp add: zero_world_def)
qed

text \<open>
  C9. A \<^verbatim>\<open>Get\<close> that takes its element from the list, on a pool with no \<^verbatim>\<open>Reset\<close>, returns
  the old head and leaves the whole world as it was: in particular the linkage word of
  the returned element is not cleared. That word is the pool's new head (\<^verbatim>\<open>nil\<close> when
  the list has become empty), so the caller holds an element that still points into
  the idle list.
\<close>

theorem C9_get_keeps_linkage:
  assumes "ready D E l off" and "Reset l = None" and "free l \<noteq> 0"
  shows "\<exists>l'. Get D E l w = (Inr (free l), l', w)
              \<and> next l' = off
              \<and> heap w (free l + next l') = free l'"
  using assms by (simp add: Get_ready_reuse Let_def)

theorem C9_get_keeps_linkage_witness:
  "ready test_types (Defined ''T'') ((fresh None None :: unit FreeList)\<lparr>free := 0x20\<rparr>) 8
   \<and> Reset ((fresh None None :: unit FreeList)\<lparr>free := 0x20\<rparr>) = None
   \<and> free ((fresh None None :: unit FreeList)\<lparr>free := 0x20\<rparr>) \<noteq> 0
   \<and> (\<exists>l'. Get test_types (Defined ''T'') ((fresh None None :: unit FreeList)\<lparr>free := 0x20\<rparr>)
               (zero_world\<lparr>heap := (heap zero_world)(0x28 := 0x10)\<rparr>)
             = (Inr 0x20, l', zero_world\<lparr>heap := (heap zero_world)(0x28 := 0x10)\<rparr>)
            \<and> next l' = 8 \<and> free l' = 0x10)"
proof -
  let ?l = "fresh None None\<lparr>free := 0x20\<rparr> :: unit FreeList"
  let ?w = "zero_world\<lparr>heap := (heap zero_world)(0x28 := 0x10)\<rparr>"
  have r: "ready test_types (Defined ''T'') ?l 8"
    by (simp add: ready_def fresh_def resolved_offset_T)
  have n: "Reset ?l = None" by (simp add: fresh_def)
  have f: "free ?l \<noteq> 0" by (simp add: fresh_def)
  from C9_get_keeps_linkage [OF r n f, of ?w] obtain l' where
    "Get test_types (Defined ''T'') ?l ?w = (Inr (free ?l), l', ?w)"
    "next l' = 8" "heap ?w (free ?l + next l') = free l'"
    by blast
  then have "Get test_types (Defined ''T'') ?l ?w = (Inr 0x20, l', ?w) \<and> next l' = 8 \<and> free l' = 0x10"
    by (simp add: fresh_def zero_world_def)
  with r n f show ?thesis by blast
qed

text \<open>
  C10, as stated, fails, on a call the contract of \<^verbatim>\<open>Put\<close> excludes: \<^verbatim>\<open>Put(nil)\<close>. On the type
  \<open>Big\<close>, whose field \<^verbatim>\<open>next\<close> lies at offset 4096, the generic pool stores through the
  address 4096 and the process dies, while the baseline's \<^verbatim>\<open>x.next = l.free\<close> panics with a
  nil dereference, the caller recovers, and the next \<^verbatim>\<open>Get\<close> blocks on the mutex the
  panic left locked.
\<close>

theorem C10_counterexample:
  "declared_next big_types (Defined ''Big'') = Some 0x1000
   \<and> fst (run big_types (Defined ''Big'') [OpPut 0, OpGet]
            (fresh None None :: unit FreeList) zero_world) = [Killed]
   \<and> fst (run_native 0x1000 [OpPut 0, OpGet]
            (fresh_native None None :: unit nativeFreeList) zero_world)
       = [Failed NilDereferencePanic, Failed Blocked]"
proof -
  have d: "declared_next big_types (Defined ''Big'') = Some 0x1000"
    by (simp add: declared_next_def big_types_def)
  have r: "resolved_offset big_types (Defined ''Big'') = Some 0x1000"
    by (rule declared_next_resolved [OF d])
  have g: "fst (run big_types (Defined ''Big'') [OpPut 0, OpGet]
                  (fresh None None :: unit FreeList) zero_world) = [Killed]"
    by (simp add: step_def Put_def init_cases r Lock_def fresh_def zero_world_def)
  have n: "fst (run_native 0x1000 [OpPut 0, OpGet]
                  (fresh_native None None :: unit nativeFreeList) zero_world)
             = [Failed NilDereferencePanic, Failed Blocked]"
    by (simp add: step_native_def Get_native_def Put_native_def Lock_native_def
        fresh_native_def zero_world_def)
  from d g n show ?thesis by simp
qed

text \<open>
  C10, amended. For an element type that declares its field \<^verbatim>\<open>next\<close> of type
  pointer-to-\<open>E\<close>, the generic \<^verbatim>\<open>FreeList\<close> and the baseline \<^verbatim>\<open>nativeFreeList\<close> with the same
  hooks, started on the same list and the same world, answer every sequence of \<^verbatim>\<open>Get\<close>
  and \<^verbatim>\<open>Put\<close> calls in which no \<^verbatim>\<open>Put\<close> receives \<^verbatim>\<open>nil\<close> with the same outcomes, and end with
  the same head, the same hooks and the same world, hence the same chain of idle
  elements. When the field lies below offset 4096 this holds for every sequence,
  \<^verbatim>\<open>Put(nil)\<close> included. No call of the generic pool kills the process then.
\<close>

theorem C10_refines_native:
  assumes "wellformed D E l off" and "same_pool l n"
    and "off < 0x1000 \<or> 0 \<notin> set (puts cs)"
  shows "case run D E cs l w of
           (rs, l', w') \<Rightarrow>
             (case run_native off cs n w of
                (rs', n', w'') \<Rightarrow>
                  rs' = rs \<and> w'' = w' \<and> same_pool l' n' \<and> wellformed D E l' off
                  \<and> Killed \<notin> set rs)"
  using assms
proof (induction cs arbitrary: l n w)
  case Nil
  then show ?case by simp
next
  case (Cons c cs)
  have c: "off < 0x1000 \<or> c \<noteq> OpPut 0" and cs: "off < 0x1000 \<or> 0 \<notin> set (puts cs)"
    using Cons.prems(3) by (cases c; auto)+
  from step_simulates [OF Cons.prems(1,2) c] obtain r l1 n1 w1 where
    s: "step D E c l w = (r, l1, w1)" and sn: "step_native off c n w = (r, n1, w1)"
    and nk: "r \<noteq> Killed"
    and wf: "wellformed D E l1 off" and sp: "same_pool l1 n1"
    by blast
  from Cons.IH [OF wf sp cs, of w1] show ?case
    using nk by (simp add: s sn split: prod.splits)
qed

theorem C10_refines_native_witness:
  "fst (run_native 8 [OpGet, OpPut 0x20, OpPut 0x40, OpGet] (fresh_native None None) zero_world)
     = fst (run test_types (Defined ''T'') [OpGet, OpPut 0x20, OpPut 0x40, OpGet]
              (fresh None None) zero_world)
   \<and> fst (run_native 8 [OpGet, OpPut 0x20, OpPut 0x40, OpGet] (fresh_native None None) zero_world)
     = [Got 0, PutDone, PutDone, Got 0x40]"
proof -
  let ?cs = "[OpGet, OpPut 0x20, OpPut 0x40, OpGet]"
  have wf: "wellformed test_types (Defined ''T'') (fresh None None :: unit FreeList) 8"
    by (simp add: wellformed_def declared_next_T fresh_def)
  have sp: "same_pool (fresh None None :: unit FreeList) (fresh_native None None)"
    by (simp add: same_pool_def fresh_def fresh_native_def)
  have ok: "(8 :: uintptr) < 0x1000 \<or> 0 \<notin> set (puts ?cs)" by simp
  from C10_refines_native [OF wf sp ok, of zero_world]
  have "fst (run_native 8 ?cs (fresh_native None None) zero_world)
          = fst (run test_types (Defined ''T'') ?cs (fresh None None) zero_world)"
    by (auto split: prod.splits)
  moreover have "fst (run_native 8 ?cs (fresh_native None None) zero_world)
                   = [Got 0, PutDone, PutDone, Got 0x40]"
    by (simp add: step_native_def Get_native_def Put_native_def Lock_native_def
        Unlock_native_def fresh_native_def zero_world_def Let_def)
  ultimately show ?thesis by simp
qed

end
